theory Spec2Isabelle
  imports Main
begin

section \<open>The network-idle detector of sodexo-ofx\<close>

text \<open>
  The development embeds \<^verbatim>\<open>waitForNetworkIdle\<close> of \<^verbatim>\<open>src/index.js\<close> (lines 203 to 256).
  The function builds a promise whose executor arms two timers, keeps the closure
  variables \<^verbatim>\<open>inFlight\<close>, \<^verbatim>\<open>timeoutId\<close> and \<^verbatim>\<open>deferred\<close>, and attaches
  three listeners to the page. Everything it does afterwards happens in callbacks that the
  JavaScript runtime invokes: the two listeners and the two timer callbacks. The closure
  variables, the runtime's pending timers, the page's listener table and the promise are
  therefore gathered in one state record, and each callback is a function on that state.

  Time is counted in milliseconds as a natural number. The runtime is modelled as follows:
  \<^item> \<^verbatim>\<open>setTimeout(f, d)\<close> called at time \<open>t\<close>, for a natural number \<open>d\<close> of
    milliseconds, yields a fresh handle and a pending timer due at \<open>t + d\<close> when
    \<open>d\<close> is at least 1 and at most 2147483647, and due at \<open>t + 1\<close> otherwise, as in
    Node; \<^verbatim>\<open>clearTimeout\<close> drops the timer with the given handle, if any;
  \<^item> pending timers run in the order of their due times, timers with equal due times in the
    order of their creation, and a timer due at or before the time of an event runs before
    that event is delivered;
  \<^item> a promise keeps its first settlement; later calls of \<^verbatim>\<open>resolve\<close> and
    \<^verbatim>\<open>reject\<close> do not change it;
  \<^item> \<^verbatim>\<open>page.on\<close> appends to the listener table, \<^verbatim>\<open>page.removeListener\<close> removes
    the most recently added matching entry, and emitting an event calls the listeners
    registered for it in order of registration.
\<close>

subsection \<open>Data\<close>

text \<open>The three page events the function subscribes to:
  \<^verbatim>\<open>'request'\<close>, \<^verbatim>\<open>'requestfailed'\<close> and \<^verbatim>\<open>'requestfinished'\<close>.\<close>

datatype event = Request | RequestFailed | RequestFinished

text \<open>A listener is one of the two closures of this invocation, or a function some other
  code attached to the page (told apart by a number).\<close>

datatype handler = OnRequest | OnResponse | Foreign nat

datatype error = Error string

datatype outcome = Resolved | Rejected error

text \<open>A timer callback together with the extra argument handed to \<^verbatim>\<open>setTimeout\<close>.\<close>

datatype callback = CleanupAndReject error | CleanupAndResolve

text \<open>The three closures pushed on \<^verbatim>\<open>deferred\<close> (lines 220, 227 and 250).\<close>

datatype deferred_fn = ClearGlobalTimeout | ClearQuietTimeout | RemoveListeners

record timer =
  tid :: nat
  due :: nat
  callback :: callback

text \<open>The page as the function finds it: its default navigation timeout and the listeners
  other code has attached already.\<close>

record page =
  defaultNavigationTimeout :: nat
  attached :: "(event \<times> nat) list"

text \<open>The second argument: each field is absent (\<open>None\<close>) or given.\<close>

record options =
  opt_timeout :: "nat option"
  opt_requests :: "nat option"
  opt_globalTimeout :: "nat option"

record state =
  timeout :: nat
  requests :: nat
  globalTimeout :: nat
  globalTimeoutId :: nat
  inFlight :: int
  timeoutId :: nat
  deferred :: "deferred_fn list"
  now :: nat
  timers :: "timer list"
  nextTimer :: nat
  listeners :: "(event \<times> handler) list"
  promise :: "(outcome \<times> nat) option"
  settlements :: "outcome list"

subsection \<open>The runtime: timers, listeners, the promise\<close>

text \<open>The delay the runtime gives a timer: \<^verbatim>\<open>setTimeout\<close> of Node sets a delay below 1 or
  above 2147483647 to 1.\<close>

definition delay :: "nat \<Rightarrow> nat" where
  "delay d = (if d < 1 \<or> 2147483647 < d then 1 else d)"

definition setTimeout :: "callback \<Rightarrow> nat \<Rightarrow> state \<Rightarrow> nat \<times> state" where
  "setTimeout f d s =
     (nextTimer s,
      s\<lparr>timers := timers s @ [\<lparr>tid = nextTimer s, due = now s + delay d, callback = f\<rparr>],
        nextTimer := Suc (nextTimer s)\<rparr>)"

definition clearTimeout :: "nat \<Rightarrow> state \<Rightarrow> state" where
  "clearTimeout i s = s\<lparr>timers := filter (\<lambda>x. tid x \<noteq> i) (timers s)\<rparr>"

definition on :: "event \<Rightarrow> handler \<Rightarrow> state \<Rightarrow> state" where
  "on e h s = s\<lparr>listeners := listeners s @ [(e, h)]\<rparr>"

definition removeListener :: "event \<Rightarrow> handler \<Rightarrow> state \<Rightarrow> state" where
  "removeListener e h s = s\<lparr>listeners := rev (remove1 (e, h) (rev (listeners s)))\<rparr>"

text \<open>The listeners found on the page belong to other code; the three entries this
  function adds are its own.\<close>

definition foreign :: "(event \<times> nat) list \<Rightarrow> (event \<times> handler) list" where
  "foreign fs = map (\<lambda>(e, n). (e, Foreign n)) fs"

definition own :: "(event \<times> handler) list" where
  "own = [(Request, OnRequest), (RequestFailed, OnResponse), (RequestFinished, OnResponse)]"

definition settle :: "outcome \<Rightarrow> state \<Rightarrow> state" where
  "settle r s =
     s\<lparr>settlements := settlements s @ [r],
       promise := (case promise s of None \<Rightarrow> Some (r, now s) | Some p \<Rightarrow> Some p)\<rparr>"

definition resolve :: "state \<Rightarrow> state" where
  "resolve s = settle Resolved s"

definition reject :: "error \<Rightarrow> state \<Rightarrow> state" where
  "reject err s = settle (Rejected err) s"

subsection \<open>The closures of \<^verbatim>\<open>waitForNetworkIdle\<close>\<close>

fun run_deferred :: "deferred_fn \<Rightarrow> state \<Rightarrow> state" where
  "run_deferred ClearGlobalTimeout s = clearTimeout (globalTimeoutId s) s"
| "run_deferred ClearQuietTimeout s = clearTimeout (timeoutId s) s"
| "run_deferred RemoveListeners s =
     removeListener RequestFinished OnResponse
       (removeListener RequestFailed OnResponse
         (removeListener Request OnRequest s))"

text \<open>\<^verbatim>\<open>deferred.reverse().forEach(fn => fn())\<close>: the array is reversed in place, then
  its functions run in the new order.\<close>

definition cleanup :: "state \<Rightarrow> state" where
  "cleanup s =
     (let d = rev (deferred s)
      in foldl (\<lambda>s' f. run_deferred f s') (s\<lparr>deferred := d\<rparr>) d)"

text \<open>\<^verbatim>\<open>cleanup() || reject(err)\<close>: \<^verbatim>\<open>cleanup\<close> returns \<^verbatim>\<open>undefined\<close>, so the
  right operand always runs, after the cleanup.\<close>

definition cleanupAndReject :: "error \<Rightarrow> state \<Rightarrow> state" where
  "cleanupAndReject err s = reject err (cleanup s)"

definition cleanupAndResolve :: "state \<Rightarrow> state" where
  "cleanupAndResolve s = resolve (cleanup s)"

definition onRequest :: "state \<Rightarrow> state" where
  "onRequest s =
     (let s1 = s\<lparr>inFlight := inFlight s + 1\<rparr>
      in if inFlight s1 > int (requests s1) then clearTimeout (timeoutId s1) s1 else s1)"

definition onResponse :: "state \<Rightarrow> state" where
  "onResponse s =
     (if inFlight s = 0 then s
      else
        let s1 = s\<lparr>inFlight := inFlight s - 1\<rparr>
        in if inFlight s1 \<le> int (requests s1)
           then (let (i, s2) = setTimeout CleanupAndResolve (timeout s1) s1
                 in s2\<lparr>timeoutId := i\<rparr>)
           else s1)"

text \<open>The executor of the promise, statement by statement. The message of the error is the
  one of line 217.\<close>

definition waitForNetworkIdle :: "page \<Rightarrow> options \<Rightarrow> state" where
  "waitForNetworkIdle p opts =
     (let s0 = \<lparr>timeout = (case opt_timeout opts of None \<Rightarrow> 500 | Some v \<Rightarrow> v),
                requests = (case opt_requests opts of None \<Rightarrow> 0 | Some v \<Rightarrow> v),
                globalTimeout =
                  (case opt_globalTimeout opts of
                     None \<Rightarrow> defaultNavigationTimeout p
                   | Some v \<Rightarrow> v),
                globalTimeoutId = 0,
                inFlight = 0,
                timeoutId = 0,
                deferred = [],
                now = 0,
                timers = [],
                nextTimer = 0,
                listeners = foreign (attached p),
                promise = None,
                settlements = []\<rparr>;
          (g, s1) = setTimeout
                      (CleanupAndReject (Error ''Waiting for network idle timed out''))
                      (globalTimeout s0) s0;
          s2 = s1\<lparr>globalTimeoutId := g\<rparr>;
          s3 = s2\<lparr>deferred := deferred s2 @ [ClearGlobalTimeout]\<rparr>;
          s4 = s3\<lparr>inFlight := 0\<rparr>;
          (i, s5) = setTimeout CleanupAndResolve (timeout s4) s4;
          s6 = s5\<lparr>timeoutId := i\<rparr>;
          s7 = s6\<lparr>deferred := deferred s6 @ [ClearQuietTimeout]\<rparr>;
          s8 = on Request OnRequest s7;
          s9 = on RequestFailed OnResponse s8;
          s10 = on RequestFinished OnResponse s9
      in s10\<lparr>deferred := deferred s10 @ [RemoveListeners]\<rparr>)"

subsection \<open>Running the callbacks\<close>

text \<open>A listener is called with the event's payload; the two closures of this function take
  no parameters, and a foreign listener does not touch this invocation's state.\<close>

fun call :: "handler \<Rightarrow> 'a \<Rightarrow> state \<Rightarrow> state" where
  "call OnRequest x s = onRequest s"
| "call OnResponse x s = onResponse s"
| "call (Foreign n) x s = s"

definition emit :: "event \<Rightarrow> 'a \<Rightarrow> state \<Rightarrow> state" where
  "emit e x s =
     foldl (\<lambda>s' (e', h). if e' = e then call h x s' else s') s (listeners s)"

definition fire :: "timer \<Rightarrow> state \<Rightarrow> state" where
  "fire tm s =
     (let s1 = s\<lparr>now := due tm, timers := filter (\<lambda>x. tid x \<noteq> tid tm) (timers s)\<rparr>
      in case callback tm of
           CleanupAndReject err \<Rightarrow> cleanupAndReject err s1
         | CleanupAndResolve \<Rightarrow> cleanupAndResolve s1)"

definition earlier :: "timer \<Rightarrow> timer \<Rightarrow> bool" where
  "earlier a b \<longleftrightarrow> due a < due b \<or> (due a = due b \<and> tid a \<le> tid b)"

fun first_timer :: "timer list \<Rightarrow> timer option" where
  "first_timer [] = None"
| "first_timer (x # xs) =
     (case first_timer xs of
        None \<Rightarrow> Some x
      | Some y \<Rightarrow> if earlier x y then Some x else Some y)"

definition next_due :: "nat \<Rightarrow> timer list \<Rightarrow> timer option" where
  "next_due t ts = first_timer (filter (\<lambda>x. due x \<le> t) ts)"

lemma first_timer_mem: "first_timer ts = Some tm \<Longrightarrow> tm \<in> set ts"
  by (induction ts arbitrary: tm) (auto split: option.splits if_splits)

lemma next_due_mem: "next_due t ts = Some tm \<Longrightarrow> tm \<in> set ts \<and> due tm \<le> t"
  unfolding next_due_def by (drule first_timer_mem) simp

lemma timers_run_deferred: "\<exists>P. timers (run_deferred f s) = filter P (timers s)"
proof (cases f)
  case ClearGlobalTimeout
  then show ?thesis by (auto simp: clearTimeout_def)
next
  case ClearQuietTimeout
  then show ?thesis by (auto simp: clearTimeout_def)
next
  case RemoveListeners
  have "timers (run_deferred RemoveListeners s) = filter (\<lambda>x. True) (timers s)"
    by (simp add: removeListener_def)
  with RemoveListeners show ?thesis by blast
qed

lemma length_timers_run_deferred: "length (timers (run_deferred f s)) \<le> length (timers s)"
proof -
  obtain P where "timers (run_deferred f s) = filter P (timers s)"
    using timers_run_deferred by blast
  then show ?thesis by simp
qed

lemma length_timers_foldl:
  "length (timers (foldl (\<lambda>s' f. run_deferred f s') s fs)) \<le> length (timers s)"
proof (induction fs arbitrary: s)
  case Nil
  show ?case by simp
next
  case (Cons f fs)
  have "length (timers (foldl (\<lambda>s' f. run_deferred f s') (run_deferred f s) fs))
          \<le> length (timers (run_deferred f s))"
    by (rule Cons.IH)
  also have "\<dots> \<le> length (timers s)"
    by (rule length_timers_run_deferred)
  finally show ?case by simp
qed

lemma length_timers_cleanup: "length (timers (cleanup s)) \<le> length (timers s)"
  using length_timers_foldl [of "s\<lparr>deferred := rev (deferred s)\<rparr>" "rev (deferred s)"]
  by (simp add: cleanup_def Let_def)

lemma length_timers_fire:
  assumes "tm \<in> set (timers s)"
  shows "length (timers (fire tm s)) < length (timers s)"
proof -
  let ?s1 = "s\<lparr>now := due tm, timers := filter (\<lambda>x. tid x \<noteq> tid tm) (timers s)\<rparr>"
  have less: "length (timers ?s1) < length (timers s)"
    using assms length_filter_less [of tm "timers s" "\<lambda>x. tid x \<noteq> tid tm"] by simp
  have "length (timers (fire tm s)) = length (timers (cleanup ?s1))"
    by (cases "callback tm")
       (simp_all add: fire_def Let_def cleanupAndReject_def cleanupAndResolve_def
          reject_def resolve_def settle_def)
  also have "\<dots> \<le> length (timers ?s1)"
    by (rule length_timers_cleanup)
  finally show ?thesis using less by simp
qed

text \<open>The timers due up to time \<open>t\<close> run one after the other, the earliest first. A timer
  callback arms no timer, so the loop ends.\<close>

function run_timers :: "nat \<Rightarrow> state \<Rightarrow> state" where
  "run_timers t s =
     (case next_due t (timers s) of
        None \<Rightarrow> s
      | Some tm \<Rightarrow> run_timers t (fire tm s))"
  by pat_completeness auto
termination
proof (relation "measure (\<lambda>(t, s). length (timers s))")
  show "wf (measure (\<lambda>(t, s). length (timers s)))" by simp
next
  fix t :: nat and s :: state and tm :: timer
  assume "next_due t (timers s) = Some tm"
  then have "tm \<in> set (timers s)" by (simp add: next_due_mem)
  then show "((t, fire tm s), (t, s)) \<in> measure (\<lambda>(t, s). length (timers s))"
    by (simp add: length_timers_fire)
qed

declare run_timers.simps [simp del]

text \<open>The page's events arrive as a list of (time, kind, payload), meant to be in ascending
  order of time. Before an event is delivered, the timers due by then have run. None of the
  results below needs the order of the times as a hypothesis.\<close>

fun deliver :: "(nat \<times> event \<times> 'a) list \<Rightarrow> state \<Rightarrow> state" where
  "deliver [] s = s"
| "deliver ((t, e, x) # es) s = deliver es (emit e x ((run_timers t s)\<lparr>now := t\<rparr>))"

text \<open>After the last event the remaining timers run.\<close>

definition horizon :: "timer list \<Rightarrow> nat" where
  "horizon ts = foldr (\<lambda>x m. max (due x) m) ts 0"

definition drain :: "state \<Rightarrow> state" where
  "drain s = run_timers (horizon (timers s)) s"

definition run :: "page \<Rightarrow> options \<Rightarrow> (nat \<times> event \<times> 'a) list \<Rightarrow> state" where
  "run p opts es = drain (deliver es (waitForNetworkIdle p opts))"

section \<open>Properties\<close>

subsection \<open>Notions used in the statements and proofs\<close>

text \<open>The error of line 217.\<close>

definition timeout_error :: error where
  "timeout_error = Error ''Waiting for network idle timed out''"

text \<open>The settlement a timer callback asks for.\<close>

fun outcome_of :: "callback \<Rightarrow> outcome" where
  "outcome_of (CleanupAndReject err) = Rejected err"
| "outcome_of CleanupAndResolve = Resolved"

text \<open>The quiet timers are the ones armed with \<^verbatim>\<open>cleanupAndResolve\<close>; the deadline timer
  is the one armed first, with \<^verbatim>\<open>cleanupAndReject\<close>.\<close>

definition quiet :: "timer \<Rightarrow> bool" where
  "quiet tm \<longleftrightarrow> callback tm = CleanupAndResolve"

definition deadline_timer :: "state \<Rightarrow> timer" where
  "deadline_timer s = \<lparr>tid = 0, due = delay (globalTimeout s), callback = CleanupAndReject timeout_error\<rparr>"

text \<open>The quiet timer armed last, the one \<^verbatim>\<open>timeoutId\<close> names, is still pending.\<close>

definition current_pending :: "state \<Rightarrow> bool" where
  "current_pending s \<longleftrightarrow> (\<exists>tm\<in>set (timers s). tid tm = timeoutId s)"

text \<open>\<open>count_event\<close> is what the two listeners do to \<^verbatim>\<open>inFlight\<close>: a started request
  counts up, a finished or failed one counts down unless the counter is 0. \<open>raw_event\<close> is the
  plain difference of started events and finished or failed ones. \<open>running\<close> lists the
  values a counter takes along a sequence of events, the starting value first, and
  \<open>kinds\<close> are the kinds of a sequence of timed events.\<close>

fun count_event :: "int \<Rightarrow> event \<Rightarrow> int" where
  "count_event n Request = n + 1"
| "count_event n RequestFailed = (if n = 0 then 0 else n - 1)"
| "count_event n RequestFinished = (if n = 0 then 0 else n - 1)"


fun running :: "(int \<Rightarrow> event \<Rightarrow> int) \<Rightarrow> int \<Rightarrow> event list \<Rightarrow> int list" where
  "running f n [] = [n]"
| "running f n (e # es) = n # running f (f n e) es"

definition kinds :: "(nat \<times> event \<times> 'a) list \<Rightarrow> event list" where
  "kinds es = map (\<lambda>(t, e, x). e) es"

text \<open>The events keep requests in flight until the deadline \<open>g\<close>: started events take
  the counter \<open>n\<close> above the threshold \<open>thr\<close> before the first quiet timer is due at
  \<open>q\<close>, no finished or failed event counts down on the way, and afterwards no event
  before the deadline brings the counter back to the threshold.\<close>

fun kept_busy :: "nat \<Rightarrow> nat \<Rightarrow> nat \<Rightarrow> int \<Rightarrow> (nat \<times> event \<times> 'a) list \<Rightarrow> bool" where
  "kept_busy thr q g n [] = (int thr < n)"
| "kept_busy thr q g n ((t, e, x) # es) =
     (if g \<le> t then int thr < n
      else if n \<le> int thr
        then t < q \<and> n \<le> count_event n e \<and> kept_busy thr q g (count_event n e) es
        else int thr < count_event n e \<and> kept_busy thr q g (count_event n e) es)"

text \<open>The state of an invocation no timer of which has run yet: the promise is pending, the
  three listeners are attached after the page's own, the deadline timer is pending, and every
  other pending timer is a quiet timer due no earlier than one quiet period after the
  start.\<close>

definition armed :: "page \<Rightarrow> state \<Rightarrow> bool" where
  "armed p s \<longleftrightarrow>
     promise s = None \<and> settlements s = [] \<and>
     deferred s = [ClearGlobalTimeout, ClearQuietTimeout, RemoveListeners] \<and>
     listeners s = foreign (attached p) @ own \<and>
     globalTimeoutId s = 0 \<and> 0 < timeoutId s \<and> timeoutId s < nextTimer s \<and>
     deadline_timer s \<in> set (timers s) \<and>
     (\<forall>tm\<in>set (timers s).
        tm = deadline_timer s \<or>
        (quiet tm \<and> 0 < tid tm \<and> tid tm < nextTimer s \<and> delay (timeout s) \<le> due tm)) \<and>
     0 \<le> inFlight s"

text \<open>No pending timer but the deadline timer and the quiet timer armed last; together
  with \<open>armed\<close>, and with the last quiet timer pending only at or below the threshold.\<close>

definition tidy :: "state \<Rightarrow> bool" where
  "tidy s \<longleftrightarrow> (\<forall>tm\<in>set (timers s). tid tm = globalTimeoutId s \<or> tid tm = timeoutId s)"

definition calm :: "page \<Rightarrow> state \<Rightarrow> bool" where
  "calm p s \<longleftrightarrow>
     armed p s \<and> tidy s \<and> (current_pending s \<longrightarrow> inFlight s \<le> int (requests s))"

text \<open>Final states: the promise settled by the only settlement of the run, the page's
  listeners as they were before the call, and no timer pending.\<close>

definition settled_and_released :: "page \<Rightarrow> state \<Rightarrow> bool" where
  "settled_and_released p r \<longleftrightarrow>
     (\<exists>v t. promise r = Some (v, t) \<and> settlements r = [v]) \<and>
     listeners r = foreign (attached p) \<and> timers r = []"

definition rejected_and_released :: "page \<Rightarrow> nat \<Rightarrow> state \<Rightarrow> bool" where
  "rejected_and_released p g r \<longleftrightarrow>
     promise r = Some (Rejected timeout_error, g) \<and>
     settlements r = [Rejected timeout_error] \<and>
     listeners r = foreign (attached p) \<and>
     timers r = []"

text \<open>What holds in every state an invocation can reach, settled or not.\<close>

definition orderly :: "state \<Rightarrow> bool" where
  "orderly s \<longleftrightarrow>
     0 \<le> inFlight s \<and>
     (\<forall>tm\<in>set (timers s). tid tm < nextTimer s) \<and>
     distinct (map tid (timers s)) \<and>
     (current_pending s \<longrightarrow> inFlight s \<le> int (requests s)) \<and>
     (requests s = 0 \<longrightarrow> (\<forall>tm\<in>set (timers s). quiet tm \<longrightarrow> tid tm = timeoutId s))"

definition listening :: "page \<Rightarrow> state \<Rightarrow> bool" where
  "listening p s \<longleftrightarrow>
     listeners s = foreign (attached p) @ own \<or> listeners s = foreign (attached p)"

subsection \<open>The state after the executor has run\<close>

lemma waitForNetworkIdle_eq:
  "waitForNetworkIdle p opts =
     \<lparr>timeout = (case opt_timeout opts of None \<Rightarrow> 500 | Some v \<Rightarrow> v),
      requests = (case opt_requests opts of None \<Rightarrow> 0 | Some v \<Rightarrow> v),
      globalTimeout =
        (case opt_globalTimeout opts of None \<Rightarrow> defaultNavigationTimeout p | Some v \<Rightarrow> v),
      globalTimeoutId = 0,
      inFlight = 0,
      timeoutId = 1,
      deferred = [ClearGlobalTimeout, ClearQuietTimeout, RemoveListeners],
      now = 0,
      timers =
        [\<lparr>tid = 0,
          due = delay (case opt_globalTimeout opts of
                         None \<Rightarrow> defaultNavigationTimeout p | Some v \<Rightarrow> v),
          callback = CleanupAndReject timeout_error\<rparr>,
         \<lparr>tid = 1, due = delay (case opt_timeout opts of None \<Rightarrow> 500 | Some v \<Rightarrow> v),
          callback = CleanupAndResolve\<rparr>],
      nextTimer = 2,
      listeners = foreign (attached p) @ own,
      promise = None,
      settlements = []\<rparr>"
  by (simp add: waitForNetworkIdle_def setTimeout_def on_def own_def timeout_error_def Let_def)

subsection \<open>What the callbacks leave unchanged\<close>

lemma run_deferred_shape:
  "\<exists>P L. run_deferred f s = s\<lparr>timers := filter P (timers s), listeners := L\<rparr>"
proof (cases f)
  case ClearGlobalTimeout
  have "run_deferred ClearGlobalTimeout s
      = s\<lparr>timers := filter (\<lambda>x. tid x \<noteq> globalTimeoutId s) (timers s), listeners := listeners s\<rparr>"
    by (simp add: clearTimeout_def)
  with ClearGlobalTimeout show ?thesis by blast
next
  case ClearQuietTimeout
  have "run_deferred ClearQuietTimeout s
      = s\<lparr>timers := filter (\<lambda>x. tid x \<noteq> timeoutId s) (timers s), listeners := listeners s\<rparr>"
    by (simp add: clearTimeout_def)
  with ClearQuietTimeout show ?thesis by blast
next
  case RemoveListeners
  have "\<exists>L. run_deferred RemoveListeners s
      = s\<lparr>timers := filter (\<lambda>x. True) (timers s), listeners := L\<rparr>"
    by (rule exI [of _ "listeners (run_deferred RemoveListeners s)"])
       (simp add: removeListener_def)
  with RemoveListeners show ?thesis by blast
qed

lemma foldl_run_deferred_shape:
  "\<exists>P L. foldl (\<lambda>s' f. run_deferred f s') s fs
          = s\<lparr>timers := filter P (timers s), listeners := L\<rparr>"
proof (induction fs arbitrary: s)
  case Nil
  have "s = s\<lparr>timers := filter (\<lambda>x. True) (timers s), listeners := listeners s\<rparr>" by simp
  then show ?case by (metis foldl_Nil)
next
  case (Cons f fs)
  obtain P1 L1 where 1: "run_deferred f s = s\<lparr>timers := filter P1 (timers s), listeners := L1\<rparr>"
    using run_deferred_shape by blast
  obtain P2 L2 where 2: "foldl (\<lambda>s' f. run_deferred f s') (run_deferred f s) fs
      = (run_deferred f s)\<lparr>timers := filter P2 (timers (run_deferred f s)), listeners := L2\<rparr>"
    using Cons.IH by blast
  have "foldl (\<lambda>s' f. run_deferred f s') s (f # fs)
      = s\<lparr>timers := filter (\<lambda>x. P1 x \<and> P2 x) (timers s), listeners := L2\<rparr>"
    by (simp add: 2) (simp add: 1 conj_commute)
  then show ?case by blast
qed

lemma cleanup_shape:
  "\<exists>P L. cleanup s
          = s\<lparr>deferred := rev (deferred s), timers := filter P (timers s), listeners := L\<rparr>"
proof -
  obtain P L where "foldl (\<lambda>s' f. run_deferred f s') (s\<lparr>deferred := rev (deferred s)\<rparr>)
        (rev (deferred s))
      = (s\<lparr>deferred := rev (deferred s)\<rparr>)
          \<lparr>timers := filter P (timers (s\<lparr>deferred := rev (deferred s)\<rparr>)), listeners := L\<rparr>"
    using foldl_run_deferred_shape by blast
  then have "cleanup s
      = s\<lparr>deferred := rev (deferred s), timers := filter P (timers s), listeners := L\<rparr>"
    by (simp add: cleanup_def Let_def)
  then show ?thesis by blast
qed

lemma fire_shape:
  "\<exists>P L. fire tm s
     = s\<lparr>now := due tm, deferred := rev (deferred s), timers := filter P (timers s),
         listeners := L,
         settlements := settlements s @ [outcome_of (callback tm)],
         promise := (case promise s of
                       None \<Rightarrow> Some (outcome_of (callback tm), due tm)
                     | Some q \<Rightarrow> Some q)\<rparr>"
proof -
  let ?s1 = "s\<lparr>now := due tm, timers := filter (\<lambda>x. tid x \<noteq> tid tm) (timers s)\<rparr>"
  obtain P L where c: "cleanup ?s1
      = ?s1\<lparr>deferred := rev (deferred ?s1), timers := filter P (timers ?s1), listeners := L\<rparr>"
    using cleanup_shape by blast
  have "fire tm s
     = s\<lparr>now := due tm, deferred := rev (deferred s),
         timers := filter (\<lambda>x. tid x \<noteq> tid tm \<and> P x) (timers s),
         listeners := L,
         settlements := settlements s @ [outcome_of (callback tm)],
         promise := (case promise s of
                       None \<Rightarrow> Some (outcome_of (callback tm), due tm)
                     | Some q \<Rightarrow> Some q)\<rparr>"
    by (cases "callback tm"; cases "promise s")
       (simp_all add: fire_def Let_def cleanupAndReject_def cleanupAndResolve_def
          reject_def resolve_def settle_def c conj_commute)
  then show ?thesis by blast
qed

lemma fire_frame:
  "inFlight (fire tm s) = inFlight s"
  "timeoutId (fire tm s) = timeoutId s"
  "nextTimer (fire tm s) = nextTimer s"
  "timeout (fire tm s) = timeout s"
  "requests (fire tm s) = requests s"
  "globalTimeout (fire tm s) = globalTimeout s"
  "globalTimeoutId (fire tm s) = globalTimeoutId s"
  "now (fire tm s) = due tm"
  "settlements (fire tm s) = settlements s @ [outcome_of (callback tm)]"
  "promise (fire tm s)
     = (case promise s of None \<Rightarrow> Some (outcome_of (callback tm), due tm) | Some q \<Rightarrow> Some q)"
  using fire_shape [of tm s] by auto

lemma timers_fire: "\<exists>P. timers (fire tm s) = filter P (timers s)"
  using fire_shape [of tm s] by auto

lemma onRequest_frame:
  "promise (onRequest s) = promise s"
  "settlements (onRequest s) = settlements s"
  "listeners (onRequest s) = listeners s"
  "deferred (onRequest s) = deferred s"
  "timeout (onRequest s) = timeout s"
  "requests (onRequest s) = requests s"
  "globalTimeout (onRequest s) = globalTimeout s"
  "globalTimeoutId (onRequest s) = globalTimeoutId s"
  "now (onRequest s) = now s"
  "nextTimer (onRequest s) = nextTimer s"
  "timeoutId (onRequest s) = timeoutId s"
  "inFlight (onRequest s) = inFlight s + 1"
  by (simp_all add: onRequest_def clearTimeout_def Let_def)

lemma onResponse_frame:
  "promise (onResponse s) = promise s"
  "settlements (onResponse s) = settlements s"
  "listeners (onResponse s) = listeners s"
  "deferred (onResponse s) = deferred s"
  "timeout (onResponse s) = timeout s"
  "requests (onResponse s) = requests s"
  "globalTimeout (onResponse s) = globalTimeout s"
  "globalTimeoutId (onResponse s) = globalTimeoutId s"
  "now (onResponse s) = now s"
  "inFlight (onResponse s) = (if inFlight s = 0 then 0 else inFlight s - 1)"
  by (simp_all add: onResponse_def setTimeout_def Let_def)

lemma foldl_call_invariant:
  assumes "P s"
    and "\<And>s'. P s' \<Longrightarrow> P (onRequest s')"
    and "\<And>s'. P s' \<Longrightarrow> P (onResponse s')"
  shows "P (foldl (\<lambda>s' (e', h). if e' = e then call h x s' else s') s ls)"
  using assms(1)
proof (induction ls arbitrary: s)
  case Nil
  then show ?case by simp
next
  case (Cons a ls)
  obtain e' h where a: "a = (e', h)" by (cases a)
  have "P (if e' = e then call h x s else s)"
    using Cons.prems assms(2,3) by (cases h) auto
  then show ?case using Cons.IH by (simp add: a)
qed

lemma emit_invariant:
  assumes "P s"
    and "\<And>s'. P s' \<Longrightarrow> P (onRequest s')"
    and "\<And>s'. P s' \<Longrightarrow> P (onResponse s')"
  shows "P (emit e x s)"
  unfolding emit_def using assms by (rule foldl_call_invariant)

lemma emit_frame:
  "promise (emit e x s) = promise s"
  "settlements (emit e x s) = settlements s"
  "listeners (emit e x s) = listeners s"
  "deferred (emit e x s) = deferred s"
  "timeout (emit e x s) = timeout s"
  "requests (emit e x s) = requests s"
  "globalTimeout (emit e x s) = globalTimeout s"
  "globalTimeoutId (emit e x s) = globalTimeoutId s"
  "now (emit e x s) = now s"
proof -
  show "promise (emit e x s) = promise s"
    by (rule emit_invariant [where P = "\<lambda>s'. promise s' = promise s"])
       (simp_all add: onRequest_frame onResponse_frame)
  show "settlements (emit e x s) = settlements s"
    by (rule emit_invariant [where P = "\<lambda>s'. settlements s' = settlements s"])
       (simp_all add: onRequest_frame onResponse_frame)
  show "listeners (emit e x s) = listeners s"
    by (rule emit_invariant [where P = "\<lambda>s'. listeners s' = listeners s"])
       (simp_all add: onRequest_frame onResponse_frame)
  show "deferred (emit e x s) = deferred s"
    by (rule emit_invariant [where P = "\<lambda>s'. deferred s' = deferred s"])
       (simp_all add: onRequest_frame onResponse_frame)
  show "timeout (emit e x s) = timeout s"
    by (rule emit_invariant [where P = "\<lambda>s'. timeout s' = timeout s"])
       (simp_all add: onRequest_frame onResponse_frame)
  show "requests (emit e x s) = requests s"
    by (rule emit_invariant [where P = "\<lambda>s'. requests s' = requests s"])
       (simp_all add: onRequest_frame onResponse_frame)
  show "globalTimeout (emit e x s) = globalTimeout s"
    by (rule emit_invariant [where P = "\<lambda>s'. globalTimeout s' = globalTimeout s"])
       (simp_all add: onRequest_frame onResponse_frame)
  show "globalTimeoutId (emit e x s) = globalTimeoutId s"
    by (rule emit_invariant [where P = "\<lambda>s'. globalTimeoutId s' = globalTimeoutId s"])
       (simp_all add: onRequest_frame onResponse_frame)
  show "now (emit e x s) = now s"
    by (rule emit_invariant [where P = "\<lambda>s'. now s' = now s"])
       (simp_all add: onRequest_frame onResponse_frame)
qed

lemma run_timers_None: "next_due t (timers s) = None \<Longrightarrow> run_timers t s = s"
  by (simp add: run_timers.simps)

lemma run_timers_Some:
  "next_due t (timers s) = Some tm \<Longrightarrow> run_timers t s = run_timers t (fire tm s)"
  by (simp add: run_timers.simps)

lemma run_timers_invariant:
  assumes "P s" and "\<And>tm s'. P s' \<Longrightarrow> P (fire tm s')"
  shows "P (run_timers t s)"
  using assms(1)
proof (induction t s rule: run_timers.induct)
  case (1 t s)
  show ?case
  proof (cases "next_due t (timers s)")
    case None
    then show ?thesis using "1.prems" by (simp add: run_timers_None)
  next
    case (Some tm)
    have "P (fire tm s)" using "1.prems" by (rule assms(2))
    then have "P (run_timers t (fire tm s))" using Some by (rule "1.IH" [rotated])
    then show ?thesis using Some by (simp add: run_timers_Some)
  qed
qed

lemma deliver_invariant:
  assumes "P s"
    and "\<And>tm s'. P s' \<Longrightarrow> P (fire tm s')"
    and "\<And>s'. P s' \<Longrightarrow> P (onRequest s')"
    and "\<And>s'. P s' \<Longrightarrow> P (onResponse s')"
    and "\<And>t s'. P s' \<Longrightarrow> P (s'\<lparr>now := t\<rparr>)"
  shows "P (deliver es s)"
  using assms(1)
proof (induction es arbitrary: s)
  case Nil
  then show ?case by simp
next
  case (Cons a es)
  obtain t e x where a: "a = (t, e, x)" by (cases a)
  have "P (run_timers t s)" using Cons.prems assms(2) by (rule run_timers_invariant)
  then have "P ((run_timers t s)\<lparr>now := t\<rparr>)" by (rule assms(5))
  then have "P (emit e x ((run_timers t s)\<lparr>now := t\<rparr>))"
    using assms(3,4) by (rule emit_invariant)
  then show ?case using Cons.IH by (simp add: a)
qed

text \<open>Once settled, the promise keeps its value.\<close>

lemma promise_run_timers_Some: "promise s = Some q \<Longrightarrow> promise (run_timers t s) = Some q"
  by (rule run_timers_invariant [where P = "\<lambda>s'. promise s' = Some q"])
     (simp_all add: fire_frame)

lemma promise_deliver_Some: "promise s = Some q \<Longrightarrow> promise (deliver es s) = Some q"
  by (rule deliver_invariant [where P = "\<lambda>s'. promise s' = Some q"])
     (simp_all add: fire_frame onRequest_frame onResponse_frame)

lemma promise_drain_Some: "promise s = Some q \<Longrightarrow> promise (drain s) = Some q"
  by (simp add: drain_def promise_run_timers_Some)

subsection \<open>Which timer runs first\<close>

lemma first_timer_None: "first_timer ts = None \<longleftrightarrow> ts = []"
  by (cases ts) (auto split: option.splits)

lemma earlier_refl: "earlier a a"
  by (simp add: earlier_def)

lemma earlier_trans: "earlier a b \<Longrightarrow> earlier b c \<Longrightarrow> earlier a c"
  by (auto simp: earlier_def)

lemma earlier_total: "\<not> earlier a b \<Longrightarrow> earlier b a"
  by (auto simp: earlier_def)

lemma first_timer_least: "first_timer ts = Some a \<Longrightarrow> b \<in> set ts \<Longrightarrow> earlier a b"
proof (induction ts arbitrary: a)
  case Nil
  then show ?case by simp
next
  case (Cons x xs)
  show ?case
  proof (cases "first_timer xs")
    case None
    then have "xs = []" by (simp add: first_timer_None)
    with Cons.prems show ?thesis by (simp add: earlier_refl)
  next
    case (Some y)
    show ?thesis
    proof (cases "earlier x y")
      case True
      with Some Cons.prems have a: "a = x" by simp
      from Cons.prems(2) consider "b = x" | "b \<in> set xs" by auto
      then show ?thesis
      proof cases
        case 1
        then show ?thesis by (simp add: a earlier_refl)
      next
        case 2
        then have "earlier y b" using Some by (rule Cons.IH [rotated])
        with True show ?thesis unfolding a by (rule earlier_trans)
      qed
    next
      case False
      with Some Cons.prems have a: "a = y" by simp
      from Cons.prems(2) consider "b = x" | "b \<in> set xs" by auto
      then show ?thesis
      proof cases
        case 1
        then show ?thesis using False by (simp add: a earlier_total)
      next
        case 2
        then show ?thesis unfolding a using Some by (rule Cons.IH [rotated])
      qed
    qed
  qed
qed

lemma next_due_least:
  "next_due t ts = Some a \<Longrightarrow> b \<in> set ts \<Longrightarrow> due b \<le> t \<Longrightarrow> earlier a b"
  unfolding next_due_def by (erule first_timer_least) simp

lemma next_due_None: "next_due t ts = None \<longleftrightarrow> (\<forall>b\<in>set ts. t < due b)"
  by (auto simp: next_due_def first_timer_None filter_empty_conv not_le)

lemma horizon_ge: "tm \<in> set ts \<Longrightarrow> due tm \<le> horizon ts"
  unfolding horizon_def by (induction ts) auto

subsection \<open>The invocation before any timer has run\<close>

lemma armed_waitForNetworkIdle: "armed p (waitForNetworkIdle p opts)"
  by (simp add: armed_def waitForNetworkIdle_eq deadline_timer_def quiet_def)

lemma armed_now: "armed p s \<Longrightarrow> armed p (s\<lparr>now := t\<rparr>)"
  by (simp add: armed_def deadline_timer_def)

lemma armed_onRequest: "armed p s \<Longrightarrow> armed p (onRequest s)"
  by (auto simp: armed_def onRequest_def clearTimeout_def deadline_timer_def Let_def)

lemma armed_onResponse: "armed p s \<Longrightarrow> armed p (onResponse s)"
  by (auto simp: armed_def onResponse_def setTimeout_def deadline_timer_def quiet_def Let_def)

lemma foldl_call_foreign:
  "foldl (\<lambda>s' (e', h). if e' = e then call h x s' else s') s (foreign fs) = s"
  by (induction fs) (auto simp: foreign_def)

lemma emit_attached:
  assumes "listeners s = foreign fs @ own"
  shows "emit e x s = (if e = Request then onRequest s else onResponse s)"
  by (cases e) (simp_all add: emit_def assms foldl_call_foreign own_def)

lemma emit_detached: "listeners s = foreign fs \<Longrightarrow> emit e x s = s"
  by (simp add: emit_def foldl_call_foreign)

lemma emit_armed:
  "armed p s \<Longrightarrow> emit e x s = (if e = Request then onRequest s else onResponse s)"
  by (rule emit_attached) (simp add: armed_def)

lemma armed_emit: "armed p s \<Longrightarrow> armed p (emit e x s)"
  by (simp add: emit_armed armed_onRequest armed_onResponse)

lemma promise_fire_armed:
  "armed p s \<Longrightarrow> promise (fire tm s) = Some (outcome_of (callback tm), due tm)"
  by (simp add: fire_frame armed_def)

lemma run_timers_armed:
  assumes "armed p s"
  shows "(next_due t (timers s) = None \<and> run_timers t s = s) \<or>
         (\<exists>tm. next_due t (timers s) = Some tm \<and>
               promise (run_timers t s) = Some (outcome_of (callback tm), due tm))"
proof (cases "next_due t (timers s)")
  case None
  then show ?thesis by (simp add: run_timers_None)
next
  case (Some tm)
  have "promise (fire tm s) = Some (outcome_of (callback tm), due tm)"
    using assms by (rule promise_fire_armed)
  then have "promise (run_timers t (fire tm s)) = Some (outcome_of (callback tm), due tm)"
    by (rule promise_run_timers_Some)
  then show ?thesis using Some by (simp add: run_timers_Some)
qed

text \<open>With the deadline no later than the quiet period, the deadline timer is the first
  to run; with an initial quiet timer still pending and due before the deadline, a quiet
  timer due at that time is.\<close>

lemma deadline_first:
  assumes "armed p s" and "delay (globalTimeout s) \<le> delay (timeout s)"
    and "next_due t (timers s) = Some tm"
  shows "tm = deadline_timer s"
proof (rule ccontr)
  assume neq: "tm \<noteq> deadline_timer s"
  from assms(3) have mem: "tm \<in> set (timers s)" and le: "due tm \<le> t"
    by (simp_all add: next_due_mem)
  from assms(1) mem neq have q: "0 < tid tm" "delay (timeout s) \<le> due tm"
    by (auto simp: armed_def)
  from assms(1) have d: "deadline_timer s \<in> set (timers s)" by (simp add: armed_def)
  have "due (deadline_timer s) \<le> t"
    using q(2) le assms(2) by (simp add: deadline_timer_def)
  with assms(3) d have "earlier tm (deadline_timer s)" by (rule next_due_least)
  with q assms(2) show False by (auto simp: earlier_def deadline_timer_def)
qed

lemma quiet_first:
  assumes "armed p s" and "delay (timeout s) < delay (globalTimeout s)"
    and "q0 \<in> set (timers s)" and "quiet q0" and "due q0 = delay (timeout s)"
    and "next_due t (timers s) = Some tm"
  shows "quiet tm \<and> due tm = delay (timeout s)"
proof -
  from assms(6) have mem: "tm \<in> set (timers s)" and le: "due tm \<le> t"
    by (simp_all add: next_due_mem)
  have ge: "delay (timeout s) \<le> due tm"
    using assms(1,2) mem by (auto simp: armed_def deadline_timer_def)
  then have "due q0 \<le> t" using le assms(5) by simp
  with assms(6,3) have e: "earlier tm q0" by (rule next_due_least)
  then have eq: "due tm = delay (timeout s)" using ge assms(5) by (auto simp: earlier_def)
  have "tm \<noteq> deadline_timer s"
    using eq assms(2) by (auto simp: deadline_timer_def)
  then have "quiet tm" using assms(1) mem by (auto simp: armed_def)
  with eq show ?thesis by simp
qed

subsection \<open>The counter as a function of the events\<close>

lemma inFlight_emit_armed: "armed p s \<Longrightarrow> inFlight (emit e x s) = count_event (inFlight s) e"
  by (cases e) (simp_all add: emit_armed onRequest_frame onResponse_frame)

subsection \<open>Outcomes\<close>

lemma drain_armed:
  assumes "armed p s"
  shows "\<exists>tm. next_due (horizon (timers s)) (timers s) = Some tm \<and>
              promise (drain s) = Some (outcome_of (callback tm), due tm)"
proof -
  from assms have d: "deadline_timer s \<in> set (timers s)" by (simp add: armed_def)
  then have "due (deadline_timer s) \<le> horizon (timers s)" by (rule horizon_ge)
  with d have "next_due (horizon (timers s)) (timers s) \<noteq> None"
    by (auto simp: next_due_None not_less)
  with run_timers_armed [OF assms, of "horizon (timers s)"] show ?thesis
    by (auto simp: drain_def)
qed

lemma deadline_wins:
  assumes "armed p s" and "delay (globalTimeout s) \<le> delay (timeout s)"
  shows "promise (drain (deliver es s)) = Some (Rejected timeout_error, delay (globalTimeout s))"
  using assms
proof (induction es arbitrary: s)
  case Nil
  obtain tm where tm: "next_due (horizon (timers s)) (timers s) = Some tm"
    and p: "promise (drain s) = Some (outcome_of (callback tm), due tm)"
    using drain_armed [OF Nil.prems(1)] by blast
  have "tm = deadline_timer s" using Nil.prems tm by (rule deadline_first)
  with p show ?case by (simp add: deadline_timer_def)
next
  case (Cons a es)
  obtain t e x where a: "a = (t, e, x)" by (cases a)
  let ?s' = "emit e x ((run_timers t s)\<lparr>now := t\<rparr>)"
  from run_timers_armed [OF Cons.prems(1), of t] show ?case
  proof (elim disjE conjE exE)
    assume "next_due t (timers s) = None" and same: "run_timers t s = s"
    have "armed p ?s'" using Cons.prems(1) by (simp add: same armed_now armed_emit)
    moreover have "delay (globalTimeout ?s') \<le> delay (timeout ?s')"
      using Cons.prems(2) by (simp add: same emit_frame)
    ultimately have "promise (drain (deliver es ?s'))
        = Some (Rejected timeout_error, delay (globalTimeout ?s'))"
      by (rule Cons.IH)
    then show ?thesis by (simp add: a same emit_frame)
  next
    fix tm
    assume tm: "next_due t (timers s) = Some tm"
      and p: "promise (run_timers t s) = Some (outcome_of (callback tm), due tm)"
    have "tm = deadline_timer s" using Cons.prems tm by (rule deadline_first)
    with p have "promise (run_timers t s) = Some (Rejected timeout_error, delay (globalTimeout s))"
      by (simp add: deadline_timer_def)
    then have "promise ?s' = Some (Rejected timeout_error, delay (globalTimeout s))"
      by (simp add: emit_frame)
    then have "promise (drain (deliver es ?s')) = Some (Rejected timeout_error, delay (globalTimeout s))"
      by (intro promise_drain_Some promise_deliver_Some)
    then show ?thesis by (simp add: a)
  qed
qed

lemma timers_onRequest_idle:
  "inFlight s + 1 \<le> int (requests s) \<Longrightarrow> timers (onRequest s) = timers s"
  by (simp add: onRequest_def Let_def)

lemma timers_onResponse_mono: "set (timers s) \<subseteq> set (timers (onResponse s))"
  by (auto simp: onResponse_def setTimeout_def Let_def)

lemma quiet_wins:
  assumes "armed p s" and "delay (timeout s) < delay (globalTimeout s)"
    and "\<exists>q0\<in>set (timers s). quiet q0 \<and> due q0 = delay (timeout s)"
    and "\<forall>c\<in>set (running count_event (inFlight s) (kinds es)). c \<le> int (requests s)"
  shows "promise (drain (deliver es s)) = Some (Resolved, delay (timeout s))"
  using assms
proof (induction es arbitrary: s)
  case Nil
  obtain tm where tm: "next_due (horizon (timers s)) (timers s) = Some tm"
    and p: "promise (drain s) = Some (outcome_of (callback tm), due tm)"
    using drain_armed [OF Nil.prems(1)] by blast
  from Nil.prems(3) obtain q0 where "q0 \<in> set (timers s)" "quiet q0" "due q0 = delay (timeout s)"
    by blast
  with Nil.prems(1,2) have "quiet tm \<and> due tm = delay (timeout s)" using tm by (rule quiet_first)
  with p show ?case by (simp add: quiet_def)
next
  case (Cons a es)
  obtain t e x where a: "a = (t, e, x)" by (cases a)
  let ?s' = "emit e x ((run_timers t s)\<lparr>now := t\<rparr>)"
  from Cons.prems(3) obtain q0 where q0: "q0 \<in> set (timers s)" "quiet q0" "due q0 = delay (timeout s)"
    by blast
  from run_timers_armed [OF Cons.prems(1), of t] show ?case
  proof (elim disjE conjE exE)
    assume "next_due t (timers s) = None" and same: "run_timers t s = s"
    have ar: "armed p (s\<lparr>now := t\<rparr>)" using Cons.prems(1) by (rule armed_now)
    have 1: "armed p ?s'" using ar by (simp add: same armed_emit)
    have 2: "delay (timeout ?s') < delay (globalTimeout ?s')"
      using Cons.prems(2) by (simp add: same emit_frame)
    have cnt: "inFlight ?s' = count_event (inFlight s) e"
      using ar by (simp add: same inFlight_emit_armed)
    have le: "count_event (inFlight s) e \<le> int (requests s)"
      using Cons.prems(4) by (cases es) (simp_all add: a kinds_def)
    have "q0 \<in> set (timers ?s')"
    proof (cases "e = Request")
      case True
      with le have "inFlight (s\<lparr>now := t\<rparr>) + 1 \<le> int (requests (s\<lparr>now := t\<rparr>))" by simp
      then have "timers (onRequest (s\<lparr>now := t\<rparr>)) = timers (s\<lparr>now := t\<rparr>)"
        by (rule timers_onRequest_idle)
      with True q0(1) show ?thesis using ar by (simp add: same emit_armed)
    next
      case False
      then have "?s' = onResponse (s\<lparr>now := t\<rparr>)" using ar by (simp add: same emit_armed)
      with q0(1) timers_onResponse_mono [of "s\<lparr>now := t\<rparr>"] show ?thesis by auto
    qed
    then have 3: "\<exists>q0\<in>set (timers ?s'). quiet q0 \<and> due q0 = delay (timeout ?s')"
      using q0(2,3) by (auto simp: same emit_frame)
    have 4: "\<forall>c\<in>set (running count_event (inFlight ?s') (kinds es)). c \<le> int (requests ?s')"
      using Cons.prems(4) cnt by (simp add: a kinds_def same emit_frame)
    have "promise (drain (deliver es ?s')) = Some (Resolved, delay (timeout ?s'))"
      using 1 2 3 4 by (rule Cons.IH)
    then show ?thesis by (simp add: a same emit_frame)
  next
    fix tm
    assume tm: "next_due t (timers s) = Some tm"
      and p: "promise (run_timers t s) = Some (outcome_of (callback tm), due tm)"
    have "quiet tm \<and> due tm = delay (timeout s)"
      using Cons.prems(1,2) q0 tm by (rule quiet_first)
    with p have "promise (run_timers t s) = Some (Resolved, delay (timeout s))"
      by (simp add: quiet_def)
    then have "promise ?s' = Some (Resolved, delay (timeout s))"
      by (simp add: emit_frame)
    then have "promise (drain (deliver es ?s')) = Some (Resolved, delay (timeout s))"
      by (intro promise_drain_Some promise_deliver_Some)
    then show ?thesis by (simp add: a)
  qed
qed

subsection \<open>Released states\<close>

lemma cleanup_attached:
  assumes "deferred s = [ClearGlobalTimeout, ClearQuietTimeout, RemoveListeners]"
    and "listeners s = foreign fs @ own"
  shows "cleanup s
     = s\<lparr>deferred := [RemoveListeners, ClearQuietTimeout, ClearGlobalTimeout],
         listeners := foreign fs,
         timers := filter (\<lambda>x. tid x \<noteq> timeoutId s \<and> tid x \<noteq> globalTimeoutId s) (timers s)\<rparr>"
  by (simp add: cleanup_def Let_def assms clearTimeout_def removeListener_def own_def)

lemma fire_calm:
  assumes "armed p s" and "tidy s"
  shows "timers (fire tm s) = []"
    and "listeners (fire tm s) = foreign (attached p)"
    and "settlements (fire tm s) = [outcome_of (callback tm)]"
    and "promise (fire tm s) = Some (outcome_of (callback tm), due tm)"
proof -
  let ?s1 = "s\<lparr>now := due tm, timers := filter (\<lambda>x. tid x \<noteq> tid tm) (timers s)\<rparr>"
  have d: "deferred ?s1 = [ClearGlobalTimeout, ClearQuietTimeout, RemoveListeners]"
    and l: "listeners ?s1 = foreign (attached p) @ own"
    using assms(1) by (simp_all add: armed_def)
  note c = cleanup_attached [OF d l]
  have "timers (cleanup ?s1) = []"
    using assms(2) by (auto simp: c tidy_def filter_empty_conv)
  then show "timers (fire tm s) = []"
    by (cases "callback tm")
       (simp_all add: fire_def Let_def cleanupAndReject_def cleanupAndResolve_def
          reject_def resolve_def settle_def)
  have "listeners (cleanup ?s1) = foreign (attached p)" by (simp add: c)
  then show "listeners (fire tm s) = foreign (attached p)"
    by (cases "callback tm")
       (simp_all add: fire_def Let_def cleanupAndReject_def cleanupAndResolve_def
          reject_def resolve_def settle_def)
  show "settlements (fire tm s) = [outcome_of (callback tm)]"
    using assms(1) by (simp add: fire_frame armed_def)
  show "promise (fire tm s) = Some (outcome_of (callback tm), due tm)"
    using assms(1) by (rule promise_fire_armed)
qed

lemma run_timers_no_timers: "timers s = [] \<Longrightarrow> run_timers t s = s"
  by (simp add: run_timers_None next_due_def)

lemma deliver_released:
  assumes "timers s = []" and "listeners s = foreign fs"
  shows "timers (deliver es s) = [] \<and> listeners (deliver es s) = foreign fs \<and>
         settlements (deliver es s) = settlements s \<and> promise (deliver es s) = promise s"
  using assms
proof (induction es arbitrary: s)
  case Nil
  then show ?case by simp
next
  case (Cons a es)
  obtain t e x where a: "a = (t, e, x)" by (cases a)
  have 1: "timers (s\<lparr>now := t\<rparr>) = []" and 2: "listeners (s\<lparr>now := t\<rparr>) = foreign fs"
    using Cons.prems by simp_all
  have step: "emit e x ((run_timers t s)\<lparr>now := t\<rparr>) = s\<lparr>now := t\<rparr>"
    using Cons.prems(1) 2 by (simp add: run_timers_no_timers emit_detached)
  from Cons.IH [OF 1 2] show ?case by (simp add: a step)
qed

lemma drain_released: "timers s = [] \<Longrightarrow> drain s = s"
  by (simp add: drain_def run_timers_no_timers)

lemma calm_now: "calm p s \<Longrightarrow> calm p (s\<lparr>now := t\<rparr>)"
  by (simp add: calm_def armed_now tidy_def current_pending_def)

lemma calm_onRequest: "calm p s \<Longrightarrow> calm p (onRequest s)"
  unfolding calm_def
  by (auto simp: armed_onRequest)
     (auto simp: tidy_def current_pending_def onRequest_def clearTimeout_def Let_def)

lemma calm_onResponse:
  assumes "calm p s" and "inFlight s = 0 \<or> int (requests s) < inFlight s - 1"
  shows "calm p (onResponse s)"
proof (cases "inFlight s = 0")
  case True
  then show ?thesis using assms(1) by (simp add: onResponse_def)
next
  case False
  with assms(2) have gt: "int (requests s) < inFlight s - 1" by simp
  then have eq: "onResponse s = s\<lparr>inFlight := inFlight s - 1\<rparr>"
    using False by (simp add: onResponse_def Let_def)
  have 1: "armed p (s\<lparr>inFlight := inFlight s - 1\<rparr>)"
    using assms(1) armed_onResponse [of p s] by (simp add: calm_def eq)
  have "\<not> current_pending s" using assms(1) gt by (auto simp: calm_def)
  then have 2: "\<not> current_pending (s\<lparr>inFlight := inFlight s - 1\<rparr>)"
    by (simp add: current_pending_def)
  have 3: "tidy (s\<lparr>inFlight := inFlight s - 1\<rparr>)"
    using assms(1) by (simp add: calm_def tidy_def)
  show ?thesis unfolding eq using 1 2 3 by (simp add: calm_def)
qed

lemma calm_busy_timers:
  assumes "calm p s" and "int (requests s) < inFlight s" and "tm \<in> set (timers s)"
  shows "tm = deadline_timer s"
proof -
  from assms(1,2) have "\<not> current_pending s" by (auto simp: calm_def)
  with assms(3) have "tid tm \<noteq> timeoutId s" by (auto simp: current_pending_def)
  with assms(1,3) have "tid tm = 0" by (auto simp: calm_def tidy_def armed_def)
  with assms(1,3) show ?thesis by (auto simp: calm_def armed_def)
qed

subsection \<open>Requests in flight until the deadline\<close>

lemma deadline_runs:
  assumes "calm p s" and "int (requests s) < inFlight s" and "delay (globalTimeout s) \<le> t"
  shows "run_timers t s = fire (deadline_timer s) s"
proof -
  from assms(1) have ar: "armed p s" and td: "tidy s" by (simp_all add: calm_def)
  from ar have d: "deadline_timer s \<in> set (timers s)" by (simp add: armed_def)
  have "due (deadline_timer s) \<le> t" using assms(3) by (simp add: deadline_timer_def)
  with d have "next_due t (timers s) \<noteq> None" by (auto simp: next_due_None not_less)
  then obtain tm where tm: "next_due t (timers s) = Some tm" by blast
  then have "tm \<in> set (timers s)" by (simp add: next_due_mem)
  with assms(1,2) have "tm = deadline_timer s" by (rule calm_busy_timers)
  with tm have "run_timers t s = run_timers t (fire (deadline_timer s) s)"
    by (simp add: run_timers_Some)
  also have "\<dots> = fire (deadline_timer s) s"
    using ar td by (simp add: run_timers_no_timers fire_calm)
  finally show ?thesis .
qed

lemma nothing_due:
  assumes "calm p s" and "t < delay (globalTimeout s)"
    and "inFlight s \<le> int (requests s) \<longrightarrow> t < delay (timeout s)"
  shows "run_timers t s = s"
proof -
  have "t < due b" if b: "b \<in> set (timers s)" for b
  proof (cases "inFlight s \<le> int (requests s)")
    case True
    with assms(3) have "t < delay (timeout s)" by simp
    with assms(1,2) b show ?thesis by (auto simp: calm_def armed_def deadline_timer_def)
  next
    case False
    with assms(1) b have "b = deadline_timer s" by (intro calm_busy_timers) simp_all
    with assms(2) show ?thesis by (simp add: deadline_timer_def)
  qed
  then have "next_due t (timers s) = None" by (simp add: next_due_None)
  then show ?thesis by (rule run_timers_None)
qed

lemma rejected_and_released_fire:
  assumes "calm p s"
  shows "rejected_and_released p (delay (globalTimeout s)) (fire (deadline_timer s) s)"
  using assms fire_calm [of p s "deadline_timer s"]
  by (simp add: rejected_and_released_def calm_def deadline_timer_def)

lemma rejected_and_released_now:
  "rejected_and_released p g r \<Longrightarrow> rejected_and_released p g (r\<lparr>now := t\<rparr>)"
  by (simp add: rejected_and_released_def)

lemma rejected_and_released_emit:
  "rejected_and_released p g r \<Longrightarrow> emit e x r = r"
  by (rule emit_detached) (simp add: rejected_and_released_def)

lemma rejected_and_released_rest:
  assumes "rejected_and_released p g r"
  shows "rejected_and_released p g (drain (deliver es r))"
proof -
  from assms have 1: "timers r = []" and 2: "listeners r = foreign (attached p)"
    by (simp_all add: rejected_and_released_def)
  from deliver_released [OF 1 2, of es] assms
  have "rejected_and_released p g (deliver es r)"
    by (simp add: rejected_and_released_def)
  moreover have "drain (deliver es r) = deliver es r"
    using deliver_released [OF 1 2, of es] by (simp add: drain_released)
  ultimately show ?thesis by simp
qed

lemma busy_rejects:
  assumes "calm p s"
    and "kept_busy (requests s) (delay (timeout s)) (delay (globalTimeout s)) (inFlight s) es"
  shows "rejected_and_released p (delay (globalTimeout s)) (drain (deliver es s))"
  using assms
proof (induction es arbitrary: s)
  case Nil
  then have busy: "int (requests s) < inFlight s" by simp
  from Nil.prems(1) have "deadline_timer s \<in> set (timers s)" by (simp add: calm_def armed_def)
  then have "delay (globalTimeout s) \<le> horizon (timers s)"
    using horizon_ge [of "deadline_timer s" "timers s"] by (simp add: deadline_timer_def)
  with Nil.prems(1) busy have "drain s = fire (deadline_timer s) s"
    unfolding drain_def by (rule deadline_runs)
  with Nil.prems(1) show ?case by (simp add: rejected_and_released_fire)
next
  case (Cons a es)
  obtain t e x where a: "a = (t, e, x)" by (cases a)
  let ?n = "inFlight s"
  show ?case
  proof (cases "delay (globalTimeout s) \<le> t")
    case True
    with Cons.prems(2) have busy: "int (requests s) < ?n" by (simp add: a)
    with Cons.prems(1) True have "run_timers t s = fire (deadline_timer s) s"
      by (intro deadline_runs)
    then have "rejected_and_released p (delay (globalTimeout s)) (run_timers t s)"
      using Cons.prems(1) by (simp add: rejected_and_released_fire)
    then have r: "rejected_and_released p (delay (globalTimeout s)) ((run_timers t s)\<lparr>now := t\<rparr>)"
      by (rule rejected_and_released_now)
    then have "emit e x ((run_timers t s)\<lparr>now := t\<rparr>) = (run_timers t s)\<lparr>now := t\<rparr>"
      by (rule rejected_and_released_emit)
    with rejected_and_released_rest [OF r, of es] show ?thesis by (simp add: a)
  next
    case False
    then have tg: "t < delay (globalTimeout s)" by simp
    from Cons.prems(2) False
    have quiet_ok: "?n \<le> int (requests s) \<longrightarrow> t < delay (timeout s) \<and> ?n \<le> count_event ?n e"
      and above: "int (requests s) < ?n \<longrightarrow> int (requests s) < count_event ?n e"
      and rest: "kept_busy (requests s) (delay (timeout s)) (delay (globalTimeout s)) (count_event ?n e) es"
      by (auto simp: a split: if_splits)
    have same: "run_timers t s = s"
      using Cons.prems(1) tg quiet_ok by (intro nothing_due) simp_all
    let ?s0 = "s\<lparr>now := t\<rparr>"
    let ?s' = "emit e x ?s0"
    have c0: "calm p ?s0" using Cons.prems(1) by (rule calm_now)
    then have ar0: "armed p ?s0" by (simp add: calm_def)
    have "calm p ?s'"
    proof (cases "e = Request")
      case True
      then show ?thesis using c0 ar0 by (simp add: emit_armed calm_onRequest)
    next
      case False
      then have dec: "count_event ?n e = (if ?n = 0 then 0 else ?n - 1)" by (cases e) simp_all
      have "inFlight ?s0 = 0 \<or> int (requests ?s0) < inFlight ?s0 - 1"
        using quiet_ok above dec by (cases "?n \<le> int (requests s)") (auto split: if_splits)
      with c0 have "calm p (onResponse ?s0)" by (rule calm_onResponse)
      with False ar0 show ?thesis by (simp add: emit_armed)
    qed
    moreover have "inFlight ?s' = count_event ?n e"
      using ar0 by (simp add: inFlight_emit_armed)
    ultimately have "rejected_and_released p (delay (globalTimeout ?s')) (drain (deliver es ?s'))"
      using rest by (intro Cons.IH) (simp_all add: emit_frame)
    then show ?thesis by (simp add: a same emit_frame)
  qed
qed

subsection \<open>Invariants of every reachable state\<close>

lemma orderly_waitForNetworkIdle: "orderly (waitForNetworkIdle p opts)"
  by (simp add: orderly_def waitForNetworkIdle_eq current_pending_def quiet_def)

lemma orderly_now: "orderly s \<Longrightarrow> orderly (s\<lparr>now := t\<rparr>)"
  by (simp add: orderly_def current_pending_def)

lemma orderly_filter:
  assumes "orderly s" and "timers s' = filter P (timers s)"
    and "0 \<le> inFlight s'" and "nextTimer s' = nextTimer s"
    and "timeoutId s' = timeoutId s" and "requests s' = requests s"
    and "current_pending s' \<longrightarrow> inFlight s' \<le> int (requests s')"
  shows "orderly s'"
proof -
  have 1: "\<forall>tm\<in>set (timers s'). tid tm < nextTimer s'"
    using assms(1) by (simp add: orderly_def assms(2,4))
  have 2: "distinct (map tid (timers s'))"
    using assms(1) by (simp add: orderly_def assms(2) distinct_map_filter)
  have 3: "requests s' = 0 \<longrightarrow> (\<forall>tm\<in>set (timers s'). quiet tm \<longrightarrow> tid tm = timeoutId s')"
    using assms(1) by (simp add: orderly_def assms(2,5,6))
  show ?thesis using assms(3,7) 1 2 3 by (simp add: orderly_def)
qed

lemma current_pending_filter:
  "timers s' = filter P (timers s) \<Longrightarrow> timeoutId s' = timeoutId s \<Longrightarrow>
   current_pending s' \<Longrightarrow> current_pending s"
  by (auto simp: current_pending_def)

lemma orderly_fire: "orderly s \<Longrightarrow> orderly (fire tm s)"
proof -
  assume o: "orderly s"
  obtain P where t: "timers (fire tm s) = filter P (timers s)" using timers_fire by blast
  have "current_pending (fire tm s) \<longrightarrow> current_pending s"
    using t by (auto intro: current_pending_filter simp: fire_frame)
  with o have c: "current_pending (fire tm s) \<longrightarrow> inFlight (fire tm s) \<le> int (requests (fire tm s))"
    by (simp add: orderly_def fire_frame)
  show ?thesis
  proof (rule orderly_filter [OF o t])
    show "current_pending (fire tm s) \<longrightarrow> inFlight (fire tm s) \<le> int (requests (fire tm s))"
      by (rule c)
  qed (use o in \<open>simp_all add: fire_frame orderly_def\<close>)
qed

lemma orderly_onRequest:
  assumes "orderly s"
  shows "orderly (onRequest s)"
proof (cases "int (requests s) < inFlight s + 1")
  case True
  then have t: "timers (onRequest s) = filter (\<lambda>x. tid x \<noteq> timeoutId s) (timers s)"
    by (simp add: onRequest_def clearTimeout_def Let_def)
  then have "\<not> current_pending (onRequest s)"
    by (simp add: current_pending_def onRequest_frame)
  then have c: "current_pending (onRequest s)
      \<longrightarrow> inFlight (onRequest s) \<le> int (requests (onRequest s))" by simp
  show ?thesis
  proof (rule orderly_filter [OF assms t])
    show "current_pending (onRequest s)
      \<longrightarrow> inFlight (onRequest s) \<le> int (requests (onRequest s))" by (rule c)
  qed (use assms in \<open>simp_all add: onRequest_frame orderly_def\<close>)
next
  case False
  then have t: "timers (onRequest s) = filter (\<lambda>x. True) (timers s)"
    by (simp add: onRequest_def Let_def)
  from False have c: "current_pending (onRequest s)
      \<longrightarrow> inFlight (onRequest s) \<le> int (requests (onRequest s))"
    by (simp add: onRequest_frame)
  show ?thesis
  proof (rule orderly_filter [OF assms t])
    show "current_pending (onRequest s)
      \<longrightarrow> inFlight (onRequest s) \<le> int (requests (onRequest s))" by (rule c)
  qed (use assms in \<open>simp_all add: onRequest_frame orderly_def\<close>)
qed

lemma orderly_onResponse:
  assumes "orderly s"
  shows "orderly (onResponse s)"
proof (cases "inFlight s = 0")
  case True
  with assms show ?thesis by (simp add: onResponse_def)
next
  case False
  with assms have pos: "0 < inFlight s" by (simp add: orderly_def)
  show ?thesis
  proof (cases "inFlight s - 1 \<le> int (requests s)")
    case True
    let ?new = "\<lparr>tid = nextTimer s, due = now s + delay (timeout s), callback = CleanupAndResolve\<rparr>"
    have eq: "onResponse s
        = s\<lparr>inFlight := inFlight s - 1, timers := timers s @ [?new],
            nextTimer := Suc (nextTimer s), timeoutId := nextTimer s\<rparr>"
      using False True by (simp add: onResponse_def setTimeout_def Let_def)
    have fresh: "\<forall>tm\<in>set (timers s). tid tm \<noteq> nextTimer s"
      using assms by (auto simp: orderly_def)
    have zero: "requests s = 0 \<longrightarrow> (\<forall>tm\<in>set (timers s). \<not> quiet tm)"
    proof
      assume z: "requests s = 0"
      with True pos have "int (requests s) < inFlight s" by simp
      with assms have "\<not> current_pending s" by (auto simp: orderly_def)
      with assms z show "\<forall>tm\<in>set (timers s). \<not> quiet tm"
        by (auto simp: orderly_def current_pending_def)
    qed
    have old: "\<forall>tm\<in>set (timers s). tid tm < Suc (nextTimer s)"
      and dist: "distinct (map tid (timers s))"
      using assms by (auto simp: orderly_def)
    show ?thesis
      unfolding eq using True pos fresh zero old dist
      by (simp add: orderly_def current_pending_def) (auto simp: quiet_def)
  next
    case False
    then have eq: "onResponse s = s\<lparr>inFlight := inFlight s - 1\<rparr>"
      using \<open>inFlight s \<noteq> 0\<close> by (simp add: onResponse_def Let_def)
    from False assms have "\<not> current_pending s" by (auto simp: orderly_def)
    then show ?thesis
      unfolding eq using assms pos by (auto simp: orderly_def current_pending_def)
  qed
qed

lemma orderly_reachable: "orderly (run_timers t (deliver es (waitForNetworkIdle p opts)))"
proof -
  have "orderly (deliver es (waitForNetworkIdle p opts))"
    by (rule deliver_invariant [where P = orderly])
       (simp_all add: orderly_waitForNetworkIdle orderly_fire orderly_onRequest
          orderly_onResponse orderly_now)
  then show ?thesis
    by (rule run_timers_invariant [where P = orderly]) (simp add: orderly_fire)
qed




subsection \<open>The listeners of every reachable state\<close>

lemma own_not_foreign:
  "(e, OnRequest) \<notin> set (foreign fs)" "(e, OnResponse) \<notin> set (foreign fs)"
  by (auto simp: foreign_def)

lemma removeListener_foreign:
  assumes "listeners s = foreign fs" and "h = OnRequest \<or> h = OnResponse"
  shows "removeListener e h s = s"
proof -
  have "(e, h) \<notin> set (rev (foreign fs))" using assms(2) own_not_foreign by auto
  then have "remove1 (e, h) (rev (foreign fs)) = rev (foreign fs)" by (rule remove1_idem)
  then show ?thesis by (simp add: removeListener_def assms(1))
qed

lemma listening_run_deferred: "listening p s \<Longrightarrow> listening p (run_deferred f s)"
proof (cases f)
  case ClearGlobalTimeout
  assume "listening p s"
  with ClearGlobalTimeout show ?thesis by (simp add: listening_def clearTimeout_def)
next
  case ClearQuietTimeout
  assume "listening p s"
  with ClearQuietTimeout show ?thesis by (simp add: listening_def clearTimeout_def)
next
  case RemoveListeners
  assume "listening p s"
  then consider "listeners s = foreign (attached p) @ own" | "listeners s = foreign (attached p)"
    by (auto simp: listening_def)
  then have "listeners (run_deferred RemoveListeners s) = foreign (attached p)"
  proof cases
    case 1
    then show ?thesis by (simp add: removeListener_def own_def)
  next
    case 2
    then show ?thesis by (simp add: removeListener_foreign)
  qed
  with RemoveListeners show ?thesis by (simp add: listening_def)
qed

lemma listening_foldl:
  "listening p s \<Longrightarrow> listening p (foldl (\<lambda>s' f. run_deferred f s') s fs)"
  by (induction fs arbitrary: s) (simp_all add: listening_run_deferred)

lemma listening_fire: "listening p s \<Longrightarrow> listening p (fire tm s)"
proof -
  assume l: "listening p s"
  let ?s1 = "s\<lparr>now := due tm, timers := filter (\<lambda>x. tid x \<noteq> tid tm) (timers s),
                deferred := rev (deferred s)\<rparr>"
  have "listening p ?s1" using l by (simp add: listening_def)
  then have "listening p (foldl (\<lambda>s' f. run_deferred f s') ?s1 (rev (deferred s)))"
    by (rule listening_foldl)
  then show ?thesis
    by (cases "callback tm")
       (simp_all add: fire_def Let_def cleanup_def cleanupAndReject_def cleanupAndResolve_def
          reject_def resolve_def settle_def listening_def)
qed

lemma listening_reachable:
  "listening p (run_timers t (deliver es (waitForNetworkIdle p opts)))"
proof -
  have "listening p (deliver es (waitForNetworkIdle p opts))"
    by (rule deliver_invariant [where P = "listening p"])
       (simp_all add: listening_fire waitForNetworkIdle_eq,
        simp_all add: listening_def onRequest_frame onResponse_frame)
  then show ?thesis
    by (rule run_timers_invariant [where P = "listening p"]) (simp add: listening_fire)
qed

lemma emit_response_idle:
  assumes "listening p s" and "inFlight s = 0" and "e \<noteq> Request"
  shows "emit e x s = s"
proof -
  from assms(1) consider "listeners s = foreign (attached p) @ own"
    | "listeners s = foreign (attached p)"
    by (auto simp: listening_def)
  then show ?thesis
  proof cases
    case 1
    then show ?thesis using assms(2,3) by (simp add: emit_attached onResponse_def)
  next
    case 2
    then show ?thesis by (rule emit_detached)
  qed
qed

subsection \<open>The payload of an event\<close>

lemma call_payload: "call h x s = call h y s"
  by (cases h) simp_all

lemma emit_payload: "emit e x s = emit e y s"
proof -
  have "(\<lambda>s' (e', h). if e' = e then call h x s' else s')
      = (\<lambda>s' (e', h). if e' = e then call h y s' else s')"
    by (intro ext) (auto intro: call_payload)
  then show ?thesis by (simp add: emit_def)
qed

lemma deliver_payload:
  "map (\<lambda>(t, e, x). (t, e)) es = map (\<lambda>(t, e, y). (t, e)) es' \<Longrightarrow> deliver es s = deliver es' s"
proof (induction es arbitrary: es' s)
  case Nil
  then show ?case by simp
next
  case (Cons a es)
  then obtain b es2 where es': "es' = b # es2" by (cases es') auto
  obtain t e x where a: "a = (t, e, x)" by (cases a)
  obtain t' e' y where b: "b = (t', e', y)" by (cases b)
  from Cons.prems have same: "t' = t" "e' = e"
    and rest: "map (\<lambda>(t, e, x). (t, e)) es = map (\<lambda>(t, e, y). (t, e)) es2"
    by (simp_all add: es' a b)
  have "emit e x ((run_timers t s)\<lparr>now := t\<rparr>) = emit e y ((run_timers t s)\<lparr>now := t\<rparr>)"
    by (rule emit_payload)
  with Cons.IH [OF rest] show ?case by (simp add: es' a b same)
qed

subsection \<open>Threshold 0: one settlement, nothing left behind\<close>

lemma calm_onResponse_zero:
  assumes "calm p s" and "requests s = 0"
  shows "calm p (onResponse s)"
proof (cases "inFlight s = 0 \<or> int (requests s) < inFlight s - 1")
  case True
  with assms(1) show ?thesis by (rule calm_onResponse)
next
  case False
  from assms(1) have ar: "armed p s" and td: "tidy s"
    and cp: "current_pending s \<longrightarrow> inFlight s \<le> int (requests s)"
    by (simp_all add: calm_def)
  from ar have "0 \<le> inFlight s" by (simp add: armed_def)
  with False assms(2) have one: "inFlight s = 1" by simp
  with cp assms(2) have np: "\<not> current_pending s" by auto
  let ?new = "\<lparr>tid = nextTimer s, due = now s + delay (timeout s), callback = CleanupAndResolve\<rparr>"
  have eq: "onResponse s
      = s\<lparr>inFlight := 0, timers := timers s @ [?new],
          nextTimer := Suc (nextTimer s), timeoutId := nextTimer s\<rparr>"
    using one assms(2) by (simp add: onResponse_def setTimeout_def Let_def)
  have 1: "armed p (onResponse s)" using ar by (rule armed_onResponse)
  have old: "\<forall>tm\<in>set (timers s). tid tm = globalTimeoutId s"
    using td np by (auto simp: tidy_def current_pending_def)
  have 2: "tidy (onResponse s)" unfolding eq using old by (simp add: tidy_def)
  have 3: "inFlight (onResponse s) \<le> int (requests (onResponse s))"
    unfolding eq by simp
  show ?thesis using 1 2 3 by (simp add: calm_def)
qed

lemma settled_and_released_fire:
  assumes "calm p s"
  shows "settled_and_released p (fire tm s)"
proof -
  from assms have "armed p s" and "tidy s" by (simp_all add: calm_def)
  then show ?thesis
    using fire_calm [of p s tm] by (simp add: settled_and_released_def)
qed

lemma settled_and_released_rest:
  assumes "settled_and_released p r"
  shows "settled_and_released p (drain (deliver es r))"
proof -
  from assms have 1: "timers r = []" and 2: "listeners r = foreign (attached p)"
    by (simp_all add: settled_and_released_def)
  from deliver_released [OF 1 2, of es] assms
  have "settled_and_released p (deliver es r)"
    by (simp add: settled_and_released_def)
  moreover have "drain (deliver es r) = deliver es r"
    using deliver_released [OF 1 2, of es] by (simp add: drain_released)
  ultimately show ?thesis by simp
qed

lemma run_timers_calm:
  assumes "calm p s"
  shows "run_timers t s = s \<or> settled_and_released p (run_timers t s)"
proof (cases "next_due t (timers s)")
  case None
  then show ?thesis by (simp add: run_timers_None)
next
  case (Some tm)
  have r: "settled_and_released p (fire tm s)" using assms by (rule settled_and_released_fire)
  then have "timers (fire tm s) = []" by (simp add: settled_and_released_def)
  then have "run_timers t (fire tm s) = fire tm s" by (rule run_timers_no_timers)
  with Some r show ?thesis by (simp add: run_timers_Some)
qed

lemma threshold_zero_settles_once:
  assumes "calm p s" and "requests s = 0"
  shows "settled_and_released p (drain (deliver es s))"
  using assms
proof (induction es arbitrary: s)
  case Nil
  from Nil.prems(1) have "deadline_timer s \<in> set (timers s)" by (simp add: calm_def armed_def)
  then have "next_due (horizon (timers s)) (timers s) \<noteq> None"
    using horizon_ge [of "deadline_timer s" "timers s"] by (auto simp: next_due_None not_less)
  then obtain tm where tm: "next_due (horizon (timers s)) (timers s) = Some tm" by blast
  have r: "settled_and_released p (fire tm s)"
    using Nil.prems(1) by (rule settled_and_released_fire)
  then have "timers (fire tm s) = []" by (simp add: settled_and_released_def)
  then have "run_timers (horizon (timers s)) (fire tm s) = fire tm s"
    by (rule run_timers_no_timers)
  with tm r show ?case by (simp add: drain_def run_timers_Some)
next
  case (Cons a es)
  obtain t e x where a: "a = (t, e, x)" by (cases a)
  from run_timers_calm [OF Cons.prems(1), of t] show ?case
  proof
    assume same: "run_timers t s = s"
    let ?s0 = "s\<lparr>now := t\<rparr>"
    have c0: "calm p ?s0" using Cons.prems(1) by (rule calm_now)
    then have ar0: "armed p ?s0" by (simp add: calm_def)
    have "calm p (emit e x ?s0)"
    proof (cases "e = Request")
      case True
      then show ?thesis using c0 ar0 by (simp add: emit_armed calm_onRequest)
    next
      case False
      have "calm p (onResponse ?s0)" using c0 Cons.prems(2) by (intro calm_onResponse_zero) simp_all
      with False ar0 show ?thesis by (simp add: emit_armed)
    qed
    moreover have "requests (emit e x ?s0) = 0" using Cons.prems(2) by (simp add: emit_frame)
    ultimately have "settled_and_released p (drain (deliver es (emit e x ?s0)))"
      by (rule Cons.IH)
    then show ?thesis by (simp add: a same)
  next
    assume r: "settled_and_released p (run_timers t s)"
    then have r': "settled_and_released p ((run_timers t s)\<lparr>now := t\<rparr>)"
      by (simp add: settled_and_released_def)
    then have "emit e x ((run_timers t s)\<lparr>now := t\<rparr>) = (run_timers t s)\<lparr>now := t\<rparr>"
      by (intro emit_detached) (simp add: settled_and_released_def)
    with settled_and_released_rest [OF r', of es] show ?thesis by (simp add: a)
  qed
qed

text \<open>With threshold 0, the value of every call in this repository, a run ends with the
  promise settled by the only call of \<^verbatim>\<open>resolve\<close> or \<^verbatim>\<open>reject\<close>, with no timer
  pending and with the listeners the page had before.\<close>

lemma threshold_zero_one_settlement:
  assumes "requests (waitForNetworkIdle p opts) = 0"
  shows "settled_and_released p (run p opts es)"
proof -
  have "calm p (waitForNetworkIdle p opts)"
    by (simp add: calm_def armed_waitForNetworkIdle)
       (simp add: waitForNetworkIdle_eq tidy_def current_pending_def)
  then show ?thesis unfolding run_def using assms by (rule threshold_zero_settles_once)
qed

text \<open>The definitions to unfold when a run is evaluated on given events.\<close>

lemmas eval_defs = run_def drain_def horizon_def waitForNetworkIdle_eq emit_def run_timers.simps
  next_due_def earlier_def fire_def cleanup_def cleanupAndReject_def cleanupAndResolve_def
  resolve_def reject_def settle_def onRequest_def onResponse_def setTimeout_def clearTimeout_def
  removeListener_def foreign_def own_def timeout_error_def delay_def Let_def

section \<open>The claims\<close>

text \<open>
  Claim C1. Every invocation produces one outcome, and before the outcome is delivered the
  three listeners are removed and both timers, the quiet timer and the deadline timer, are
  cancelled. The code does not keep this when the threshold is above 0: the cleanup cancels
  the deadline timer and the quiet timer whose handle is in \<^verbatim>\<open>timeoutId\<close>, but
  \<^verbatim>\<open>onResponse\<close> overwrites that handle without cancelling the timer it named
  (line 242), so an earlier quiet timer can outlive the settlement. Threshold 1, quiet
  period 500, overall timeout 3000; requests start at times 10 and 30 and finish at times 20
  and 40. At time 500 the first quiet timer resolves the promise; the listeners are removed,
  but the quiet timer armed at time 20 is still pending, and when it runs at time 520 the
  cleanup and \<^verbatim>\<open>resolve\<close> are executed a second time.
\<close>

theorem stale_quiet_timer_outlives_settlement:
  "promise (run_timers 500
      (deliver [(10, Request, ()), (20, RequestFinished, ()),
                (30, Request, ()), (40, RequestFinished, ())]
         (waitForNetworkIdle \<lparr>defaultNavigationTimeout = 30000, attached = []\<rparr>
            \<lparr>opt_timeout = Some 500, opt_requests = Some 1, opt_globalTimeout = Some 3000\<rparr>)))
     = Some (Resolved, 500)
   \<and> timers (run_timers 500
      (deliver [(10, Request, ()), (20, RequestFinished, ()),
                (30, Request, ()), (40, RequestFinished, ())]
         (waitForNetworkIdle \<lparr>defaultNavigationTimeout = 30000, attached = []\<rparr>
            \<lparr>opt_timeout = Some 500, opt_requests = Some 1, opt_globalTimeout = Some 3000\<rparr>)))
     = [\<lparr>tid = 2, due = 520, callback = CleanupAndResolve\<rparr>]
   \<and> listeners (run_timers 500
      (deliver [(10, Request, ()), (20, RequestFinished, ()),
                (30, Request, ()), (40, RequestFinished, ())]
         (waitForNetworkIdle \<lparr>defaultNavigationTimeout = 30000, attached = []\<rparr>
            \<lparr>opt_timeout = Some 500, opt_requests = Some 1, opt_globalTimeout = Some 3000\<rparr>)))
     = []
   \<and> settlements (run \<lparr>defaultNavigationTimeout = 30000, attached = []\<rparr>
         \<lparr>opt_timeout = Some 500, opt_requests = Some 1, opt_globalTimeout = Some 3000\<rparr>
         [(10, Request, ()), (20, RequestFinished, ()),
          (30, Request, ()), (40, RequestFinished, ())])
     = [Resolved, Resolved]"
  by (simp add: eval_defs)

text \<open>
  The same slip lets the promise resolve while requests are in flight. Threshold 1; at time
  0 a request starts and finishes and two more start. From then on two requests are in
  flight, above the threshold; the quiet timer armed at the start still runs at time 500.
\<close>

lemma stale_quiet_timer_resolves_while_busy:
  "promise (run \<lparr>defaultNavigationTimeout = 30000, attached = []\<rparr>
         \<lparr>opt_timeout = Some 500, opt_requests = Some 1, opt_globalTimeout = Some 3000\<rparr>
         [(0, Request, ()), (0, RequestFinished, ()), (0, Request, ()), (0, Request, ())])
     = Some (Resolved, 500)
   \<and> inFlight (run \<lparr>defaultNavigationTimeout = 30000, attached = []\<rparr>
         \<lparr>opt_timeout = Some 500, opt_requests = Some 1, opt_globalTimeout = Some 3000\<rparr>
         [(0, Request, ()), (0, RequestFinished, ()), (0, Request, ()), (0, Request, ())])
     = 2"
  by (simp add: eval_defs)




text \<open>
  Claim C3, as amended. The error is created with the message
  \<^verbatim>\<open>Waiting for network idle timed out\<close>, with a capital W. If started events take the
  counter above the threshold before the first quiet timer is due, without a finished or
  failed event counting down on the way, and no finished or failed event brings the counter
  back to the threshold before the deadline timer is due, then the promise is rejected with
  that error when the deadline timer is due; \<^verbatim>\<open>reject\<close> is the only settlement of the
  run, so no other timer of the call runs afterwards, and the page has the listeners it had
  before the call. The two timers are due after the delays the runtime gives them: the quiet
  period and the overall timeout when these lie between 1 and 2147483647, and 1 otherwise.
\<close>

theorem busy_until_deadline_rejects:
  assumes "kept_busy (requests (waitForNetworkIdle p opts))
             (delay (timeout (waitForNetworkIdle p opts)))
             (delay (globalTimeout (waitForNetworkIdle p opts))) 0 es"
  shows "promise (run p opts es)
           = Some (Rejected (Error ''Waiting for network idle timed out''),
                   delay (globalTimeout (waitForNetworkIdle p opts)))
         \<and> settlements (run p opts es)
           = [Rejected (Error ''Waiting for network idle timed out'')]
         \<and> listeners (run p opts es) = foreign (attached p)"
proof -
  let ?s = "waitForNetworkIdle p opts"
  have "calm p ?s"
    by (simp add: calm_def armed_waitForNetworkIdle)
       (simp add: waitForNetworkIdle_eq tidy_def current_pending_def)
  moreover have "kept_busy (requests ?s) (delay (timeout ?s)) (delay (globalTimeout ?s))
      (inFlight ?s) es"
    using assms by (simp add: waitForNetworkIdle_eq)
  ultimately have "rejected_and_released p (delay (globalTimeout ?s)) (drain (deliver es ?s))"
    by (rule busy_rejects)
  then show ?thesis by (simp add: rejected_and_released_def run_def timeout_error_def)
qed

theorem busy_until_deadline_rejects_witness:
  "kept_busy
     (requests (waitForNetworkIdle \<lparr>defaultNavigationTimeout = 30000, attached = [(Request, 3)]\<rparr>
        \<lparr>opt_timeout = Some 500, opt_requests = Some 1, opt_globalTimeout = Some 1000\<rparr>))
     (delay (timeout (waitForNetworkIdle
        \<lparr>defaultNavigationTimeout = 30000, attached = [(Request, 3)]\<rparr>
        \<lparr>opt_timeout = Some 500, opt_requests = Some 1, opt_globalTimeout = Some 1000\<rparr>)))
     (delay (globalTimeout (waitForNetworkIdle
        \<lparr>defaultNavigationTimeout = 30000, attached = [(Request, 3)]\<rparr>
        \<lparr>opt_timeout = Some 500, opt_requests = Some 1, opt_globalTimeout = Some 1000\<rparr>)))
     0
     [(0 :: nat, Request, ()), (200, Request, ()), (300, Request, ()),
      (400, RequestFinished, ()), (1200, RequestFinished, ())]
   \<and> promise (run \<lparr>defaultNavigationTimeout = 30000, attached = [(Request, 3)]\<rparr>
         \<lparr>opt_timeout = Some 500, opt_requests = Some 1, opt_globalTimeout = Some 1000\<rparr>
         [(0 :: nat, Request, ()), (200, Request, ()), (300, Request, ()),
          (400, RequestFinished, ()), (1200, RequestFinished, ())])
       = Some (Rejected (Error ''Waiting for network idle timed out''), 1000)
   \<and> listeners (run \<lparr>defaultNavigationTimeout = 30000, attached = [(Request, 3)]\<rparr>
         \<lparr>opt_timeout = Some 500, opt_requests = Some 1, opt_globalTimeout = Some 1000\<rparr>
         [(0 :: nat, Request, ()), (200, Request, ()), (300, Request, ()),
          (400, RequestFinished, ()), (1200, RequestFinished, ())])
       = [(Request, Foreign 3)]"
  using busy_until_deadline_rejects
    [of "\<lparr>defaultNavigationTimeout = 30000, attached = [(Request, 3)]\<rparr>"
        "\<lparr>opt_timeout = Some 500, opt_requests = Some 1, opt_globalTimeout = Some 1000\<rparr>"
        "[(0 :: nat, Request, ()), (200, Request, ()), (300, Request, ()),
          (400, RequestFinished, ()), (1200, RequestFinished, ())]"]
  by (simp add: waitForNetworkIdle_eq foreign_def delay_def)

text \<open>
  Claim C3 as stated fails on the message. Threshold 0, quiet period 500, overall timeout
  1000, requests started at times 0 and 200 and none finished: the promise is rejected at
  time 1000, and the message of the error is not
  \<^verbatim>\<open>waiting for network idle timed out\<close>.
\<close>

theorem timeout_message_is_capitalised:
  "promise (run \<lparr>defaultNavigationTimeout = 30000, attached = []\<rparr>
         \<lparr>opt_timeout = Some 500, opt_requests = Some 0, opt_globalTimeout = Some 1000\<rparr>
         [(0, Request, ()), (200, Request, ())])
     = Some (Rejected (Error ''Waiting for network idle timed out''), 1000)
   \<and> promise (run \<lparr>defaultNavigationTimeout = 30000, attached = []\<rparr>
         \<lparr>opt_timeout = Some 500, opt_requests = Some 0, opt_globalTimeout = Some 1000\<rparr>
         [(0, Request, ()), (200, Request, ())])
     \<noteq> Some (Rejected (Error ''waiting for network idle timed out''), 1000)"
  by (simp add: eval_defs)




text \<open>
  Claim C5. Threshold 0, quiet period 500, overall timeout 3000, a request started at time
  0 and finished at time 100. The started event cancels the quiet timer armed at the start,
  the finished event arms a fresh one at time 100, due at time 600, and the promise
  resolves at time 600. This holds for every page and every payload of the two events.
\<close>

theorem started_then_finished_resolves_at_600:
  "timers (deliver [(0, Request, x)]
      (waitForNetworkIdle p
         \<lparr>opt_timeout = Some 500, opt_requests = Some 0, opt_globalTimeout = Some 3000\<rparr>))
     = [\<lparr>tid = 0, due = 3000,
         callback = CleanupAndReject (Error ''Waiting for network idle timed out'')\<rparr>]
   \<and> now (deliver [(0, Request, x), (100, RequestFinished, y)]
      (waitForNetworkIdle p
         \<lparr>opt_timeout = Some 500, opt_requests = Some 0, opt_globalTimeout = Some 3000\<rparr>))
     = 100
   \<and> timers (deliver [(0, Request, x), (100, RequestFinished, y)]
      (waitForNetworkIdle p
         \<lparr>opt_timeout = Some 500, opt_requests = Some 0, opt_globalTimeout = Some 3000\<rparr>))
     = [\<lparr>tid = 0, due = 3000,
         callback = CleanupAndReject (Error ''Waiting for network idle timed out'')\<rparr>,
        \<lparr>tid = 2, due = 600, callback = CleanupAndResolve\<rparr>]
   \<and> promise (run p
         \<lparr>opt_timeout = Some 500, opt_requests = Some 0, opt_globalTimeout = Some 3000\<rparr>
         [(0, Request, x), (100, RequestFinished, y)])
     = Some (Resolved, 600)"
  by (simp add: run_def drain_def horizon_def waitForNetworkIdle_eq run_timers.simps
        next_due_def earlier_def fire_def cleanup_attached emit_attached
        cleanupAndReject_def cleanupAndResolve_def resolve_def reject_def settle_def
        onRequest_def onResponse_def setTimeout_def clearTimeout_def timeout_error_def
        delay_def Let_def)

text \<open>
  Claim C6. \<^verbatim>\<open>onResponse\<close> called while the counter is 0 returns the state as it is:
  the counter stays 0 and no timer is armed. In every state the invocation can reach the
  counter is not negative, and a finished or failed event emitted there while the counter
  is 0 changes nothing.
\<close>

theorem finished_at_zero_is_ignored:
  assumes "r = run_timers t (deliver es (waitForNetworkIdle p opts))"
  shows "(inFlight s = 0 \<longrightarrow> onResponse s = s)
       \<and> 0 \<le> inFlight r
       \<and> (inFlight r = 0 \<longrightarrow> emit RequestFinished x r = r \<and> emit RequestFailed x r = r)
       \<and> 0 \<le> inFlight (run p opts es)"
proof -
  have "orderly r" unfolding assms by (rule orderly_reachable)
  then have 1: "0 \<le> inFlight r" by (simp add: orderly_def)
  have l: "listening p r" unfolding assms by (rule listening_reachable)
  have 2: "inFlight r = 0 \<longrightarrow> emit RequestFinished x r = r \<and> emit RequestFailed x r = r"
    using l by (simp add: emit_response_idle)
  have "orderly (run p opts es)" unfolding run_def drain_def by (rule orderly_reachable)
  then have 3: "0 \<le> inFlight (run p opts es)" by (simp add: orderly_def)
  have 4: "inFlight s = 0 \<longrightarrow> onResponse s = s" by (simp add: onResponse_def)
  show ?thesis using 1 2 3 4 by blast
qed

theorem finished_at_zero_is_ignored_witness:
  "inFlight (waitForNetworkIdle \<lparr>defaultNavigationTimeout = 30000, attached = []\<rparr>
       \<lparr>opt_timeout = None, opt_requests = None, opt_globalTimeout = None\<rparr>) = 0
   \<and> onResponse (waitForNetworkIdle \<lparr>defaultNavigationTimeout = 30000, attached = []\<rparr>
       \<lparr>opt_timeout = None, opt_requests = None, opt_globalTimeout = None\<rparr>)
     = waitForNetworkIdle \<lparr>defaultNavigationTimeout = 30000, attached = []\<rparr>
       \<lparr>opt_timeout = None, opt_requests = None, opt_globalTimeout = None\<rparr>
   \<and> inFlight (run_timers 150 (deliver [(0, Request, ()), (100, RequestFinished, ())]
       (waitForNetworkIdle \<lparr>defaultNavigationTimeout = 30000, attached = []\<rparr>
          \<lparr>opt_timeout = None, opt_requests = None, opt_globalTimeout = None\<rparr>))) = 0
   \<and> emit RequestFinished ()
       (run_timers 150 (deliver [(0, Request, ()), (100, RequestFinished, ())]
          (waitForNetworkIdle \<lparr>defaultNavigationTimeout = 30000, attached = []\<rparr>
             \<lparr>opt_timeout = None, opt_requests = None, opt_globalTimeout = None\<rparr>)))
     = run_timers 150 (deliver [(0, Request, ()), (100, RequestFinished, ())]
          (waitForNetworkIdle \<lparr>defaultNavigationTimeout = 30000, attached = []\<rparr>
             \<lparr>opt_timeout = None, opt_requests = None, opt_globalTimeout = None\<rparr>))"
  using finished_at_zero_is_ignored [OF refl, of
      "waitForNetworkIdle \<lparr>defaultNavigationTimeout = 30000, attached = []\<rparr>
         \<lparr>opt_timeout = None, opt_requests = None, opt_globalTimeout = None\<rparr>"
      150 "[(0, Request, ()), (100, RequestFinished, ())]"
      "\<lparr>defaultNavigationTimeout = 30000, attached = []\<rparr>"
      "\<lparr>opt_timeout = None, opt_requests = None, opt_globalTimeout = None\<rparr>" "()"]
  by (simp add: eval_defs)

text \<open>
  Claim C7. Called without the option, the quiet period is 500 ms, the threshold is 0, and
  the overall timeout is the page's default navigation timeout; the two timers are armed
  with these values, the deadline timer with the delay the runtime gives that timeout.
\<close>

theorem defaults_of_absent_options:
  "timeout (waitForNetworkIdle p (opts\<lparr>opt_timeout := None\<rparr>)) = 500
   \<and> requests (waitForNetworkIdle p (opts\<lparr>opt_requests := None\<rparr>)) = 0
   \<and> globalTimeout (waitForNetworkIdle p (opts\<lparr>opt_globalTimeout := None\<rparr>))
       = defaultNavigationTimeout p
   \<and> timers (waitForNetworkIdle p
        \<lparr>opt_timeout = None, opt_requests = None, opt_globalTimeout = None\<rparr>)
       = [\<lparr>tid = 0, due = delay (defaultNavigationTimeout p),
           callback = CleanupAndReject (Error ''Waiting for network idle timed out'')\<rparr>,
          \<lparr>tid = 1, due = 500, callback = CleanupAndResolve\<rparr>]"
  by (simp add: waitForNetworkIdle_eq timeout_error_def) (simp add: delay_def)

text \<open>
  Claim C8, as amended. With no events at all, if the delay the runtime gives the quiet
  timer is shorter than the one it gives the deadline timer, the first timer to run is the
  quiet timer armed at the start, and the promise resolves at the end of that delay. For a
  quiet period and an overall timeout between 1 and 2147483647 the delays are these two
  values themselves, and the condition is that the quiet period is the shorter one.
\<close>

theorem no_events_resolves_after_quiet_period:
  assumes "delay (timeout (waitForNetworkIdle p opts))
             < delay (globalTimeout (waitForNetworkIdle p opts))"
  shows "next_due (delay (timeout (waitForNetworkIdle p opts)))
             (timers (waitForNetworkIdle p opts))
           = Some \<lparr>tid = 1, due = delay (timeout (waitForNetworkIdle p opts)),
                   callback = CleanupAndResolve\<rparr>
         \<and> promise (run p opts ([] :: (nat \<times> event \<times> unit) list))
           = Some (Resolved, delay (timeout (waitForNetworkIdle p opts)))"
proof -
  let ?s = "waitForNetworkIdle p opts"
  have 1: "armed p ?s" by (rule armed_waitForNetworkIdle)
  have 3: "\<exists>q0\<in>set (timers ?s). quiet q0 \<and> due q0 = delay (timeout ?s)"
    by (simp add: waitForNetworkIdle_eq quiet_def)
  have 4: "\<forall>c\<in>set (running count_event (inFlight ?s)
              (kinds ([] :: (nat \<times> event \<times> unit) list))). c \<le> int (requests ?s)"
    by (simp add: waitForNetworkIdle_eq kinds_def)
  have "promise (run p opts ([] :: (nat \<times> event \<times> unit) list))
      = Some (Resolved, delay (timeout ?s))"
    unfolding run_def using 1 assms 3 4 by (rule quiet_wins)
  moreover have "next_due (delay (timeout ?s)) (timers ?s)
      = Some \<lparr>tid = 1, due = delay (timeout ?s), callback = CleanupAndResolve\<rparr>"
    using assms by (simp add: waitForNetworkIdle_eq next_due_def)
  ultimately show ?thesis by simp
qed

theorem no_events_resolves_after_quiet_period_witness:
  "delay (timeout (waitForNetworkIdle \<lparr>defaultNavigationTimeout = 30000, attached = []\<rparr>
              \<lparr>opt_timeout = Some 200, opt_requests = None, opt_globalTimeout = None\<rparr>))
     < delay (globalTimeout (waitForNetworkIdle
              \<lparr>defaultNavigationTimeout = 30000, attached = []\<rparr>
              \<lparr>opt_timeout = Some 200, opt_requests = None, opt_globalTimeout = None\<rparr>))
   \<and> promise (run \<lparr>defaultNavigationTimeout = 30000, attached = []\<rparr>
         \<lparr>opt_timeout = Some 200, opt_requests = None, opt_globalTimeout = None\<rparr>
         ([] :: (nat \<times> event \<times> unit) list))
       = Some (Resolved, 200)"
  using no_events_resolves_after_quiet_period
    [of "\<lparr>defaultNavigationTimeout = 30000, attached = []\<rparr>"
        "\<lparr>opt_timeout = Some 200, opt_requests = None, opt_globalTimeout = None\<rparr>"]
  by (simp add: waitForNetworkIdle_eq delay_def)

text \<open>
  Claim C8 as stated fails. With a quiet period of 0 and an overall timeout of 1 and no
  events, the runtime gives both timers a delay of 1; the deadline timer was created first
  and rejects the promise at time 1. With a quiet period of 500 and an overall timeout of
  2147483648 the deadline timer is due at time 1 as well and rejects the promise. In both
  runs the quiet period is shorter than the overall timeout.
\<close>

theorem quiet_period_shorter_yet_rejected:
  "(0 :: nat) < 1
   \<and> promise (run \<lparr>defaultNavigationTimeout = 30000, attached = []\<rparr>
         \<lparr>opt_timeout = Some 0, opt_requests = None, opt_globalTimeout = Some 1\<rparr>
         ([] :: (nat \<times> event \<times> unit) list))
       = Some (Rejected (Error ''Waiting for network idle timed out''), 1)
   \<and> (500 :: nat) < 2147483648
   \<and> promise (run \<lparr>defaultNavigationTimeout = 30000, attached = []\<rparr>
         \<lparr>opt_timeout = Some 500, opt_requests = None, opt_globalTimeout = Some 2147483648\<rparr>
         ([] :: (nat \<times> event \<times> unit) list))
       = Some (Rejected (Error ''Waiting for network idle timed out''), 1)"
  by (simp add: eval_defs)

text \<open>
  Claim C9, as amended. When the delay the runtime gives the deadline timer is not longer
  than the one it gives the quiet timers, the promise is rejected with the timeout error
  when the deadline timer is due, whatever the events are: the deadline timer is armed
  first, and every quiet timer is due no earlier than the first one. For a quiet period and
  an overall timeout between 1 and 2147483647 the delays are these two values themselves,
  and the condition is that the overall timeout is not larger than the quiet period.
\<close>

theorem deadline_within_quiet_period_rejects:
  assumes "delay (globalTimeout (waitForNetworkIdle p opts))
             \<le> delay (timeout (waitForNetworkIdle p opts))"
  shows "promise (run p opts es)
           = Some (Rejected (Error ''Waiting for network idle timed out''),
                   delay (globalTimeout (waitForNetworkIdle p opts)))"
proof -
  have "armed p (waitForNetworkIdle p opts)" by (rule armed_waitForNetworkIdle)
  then have "promise (drain (deliver es (waitForNetworkIdle p opts)))
      = Some (Rejected timeout_error, delay (globalTimeout (waitForNetworkIdle p opts)))"
    using assms by (rule deadline_wins)
  then show ?thesis by (simp add: run_def timeout_error_def)
qed

theorem deadline_within_quiet_period_rejects_witness:
  "delay (globalTimeout (waitForNetworkIdle
       \<lparr>defaultNavigationTimeout = 30000, attached = []\<rparr>
       \<lparr>opt_timeout = None, opt_requests = Some 2, opt_globalTimeout = Some 500\<rparr>))
     \<le> delay (timeout (waitForNetworkIdle
       \<lparr>defaultNavigationTimeout = 30000, attached = []\<rparr>
       \<lparr>opt_timeout = None, opt_requests = Some 2, opt_globalTimeout = Some 500\<rparr>))
   \<and> promise (run \<lparr>defaultNavigationTimeout = 30000, attached = []\<rparr>
         \<lparr>opt_timeout = None, opt_requests = Some 2, opt_globalTimeout = Some 500\<rparr>
         [(0 :: nat, Request, ()), (100, RequestFinished, ())])
       = Some (Rejected (Error ''Waiting for network idle timed out''), 500)"
  using deadline_within_quiet_period_rejects
    [of "\<lparr>defaultNavigationTimeout = 30000, attached = []\<rparr>"
        "\<lparr>opt_timeout = None, opt_requests = Some 2, opt_globalTimeout = Some 500\<rparr>"
        "[(0 :: nat, Request, ()), (100, RequestFinished, ())]"]
  by (simp add: waitForNetworkIdle_eq delay_def)

text \<open>
  Claim C9 as stated fails. With a quiet period of 2147483648 and an overall timeout of
  3000, the overall timeout is the smaller of the two, but the runtime gives the quiet timer
  a delay of 1: with no events the promise resolves at time 1.
\<close>

theorem overall_timeout_smaller_yet_resolved:
  "(3000 :: nat) \<le> 2147483648
   \<and> promise (run \<lparr>defaultNavigationTimeout = 30000, attached = []\<rparr>
         \<lparr>opt_timeout = Some 2147483648, opt_requests = None, opt_globalTimeout = Some 3000\<rparr>
         ([] :: (nat \<times> event \<times> unit) list))
       = Some (Resolved, 1)"
  by (simp add: eval_defs)

text \<open>
  Claim C10. The two listeners take no parameters, so the payload of an event is never
  read: two event sequences with the same times and kinds lead to the same final state,
  and with it to the same outcome at the same time, whatever the payloads are.
\<close>

theorem outcome_independent_of_payload:
  assumes "map (\<lambda>(t, e, x). (t, e)) es = map (\<lambda>(t, e, y). (t, e)) es'"
  shows "run p opts es = run p opts es'"
  using deliver_payload [OF assms] by (simp add: run_def)

theorem outcome_independent_of_payload_witness:
  "map (\<lambda>(t, e, x). (t, e)) [(0 :: nat, Request, ''https://a.example/login''),
                            (100, RequestFinished, ''https://a.example/login'')]
     = map (\<lambda>(t, e, y). (t, e)) [(0 :: nat, Request, 17 :: nat), (100, RequestFinished, 4)]
   \<and> run \<lparr>defaultNavigationTimeout = 30000, attached = []\<rparr>
        \<lparr>opt_timeout = None, opt_requests = None, opt_globalTimeout = Some 3000\<rparr>
        [(0, Request, ''https://a.example/login''),
         (100, RequestFinished, ''https://a.example/login'')]
     = run \<lparr>defaultNavigationTimeout = 30000, attached = []\<rparr>
        \<lparr>opt_timeout = None, opt_requests = None, opt_globalTimeout = Some 3000\<rparr>
        [(0, Request, 17 :: nat), (100, RequestFinished, 4)]"
  using outcome_independent_of_payload
    [of "[(0 :: nat, Request, ''https://a.example/login''),
          (100, RequestFinished, ''https://a.example/login'')]"
        "[(0 :: nat, Request, 17 :: nat), (100, RequestFinished, 4)]"
        "\<lparr>defaultNavigationTimeout = 30000, attached = []\<rparr>"
        "\<lparr>opt_timeout = None, opt_requests = None, opt_globalTimeout = Some 3000\<rparr>"]
  by simp

end
